theory Spec2Isabelle
  imports Complex_Main
begin

section \<open>Python values\<close>

text \<open>
  A Python \<open>str\<close> is a sequence of Unicode code points. A code point is modelled by its
  number (\<open>ord\<close>), a text by the list of its code points, so that no character is excluded
  by the type. \<open>pystr\<close> writes an ASCII literal of the source as such a list.
\<close>

type_synonym uchar = nat
type_synonym ustr = "uchar list"

definition pystr :: "string \<Rightarrow> ustr" where
  "pystr s = map of_char s"

text \<open>The exceptions that the modelled code can raise.\<close>

datatype py_error = IndexError | KeyError | ValueError | AttributeError | InvalidArgumentError

text \<open>
  \<open>str.strip()\<close> and \<open>str.split()\<close> without arguments work on the characters for which
  CPython's \<open>Py_UNICODE_ISSPACE\<close> holds: U+0009..U+000D, U+001C..U+0020, U+0085, U+00A0,
  U+1680, U+2000..U+200A, U+2028, U+2029, U+202F, U+205F and U+3000.
\<close>

definition py_isspace :: "uchar \<Rightarrow> bool" where
  "py_isspace c \<longleftrightarrow>
     (9 \<le> c \<and> c \<le> 13) \<or> (28 \<le> c \<and> c \<le> 32) \<or> c = 133 \<or> c = 160 \<or> c = 5760 \<or>
     (8192 \<le> c \<and> c \<le> 8202) \<or> c = 8232 \<or> c = 8233 \<or> c = 8239 \<or> c = 8287 \<or> c = 12288"

definition py_strip :: "ustr \<Rightarrow> ustr" where
  "py_strip s = rev (dropWhile py_isspace (rev (dropWhile py_isspace s)))"

text \<open>
  \<open>s.split()\<close>: the maximal runs of non-whitespace characters, in order; \<open>cur\<close> is the run
  being read.
\<close>

fun py_split_from :: "ustr \<Rightarrow> ustr \<Rightarrow> ustr list" where
  "py_split_from cur [] = (if cur = [] then [] else [cur])"
| "py_split_from cur (c # cs) =
     (if py_isspace c then (if cur = [] then py_split_from [] cs else cur # py_split_from [] cs)
      else py_split_from (cur @ [c]) cs)"

definition py_split :: "ustr \<Rightarrow> ustr list" where
  "py_split s = py_split_from [] s"

text \<open>\<open>xs[start:end]\<close> for \<open>0 \<le> start \<le> end\<close>; Python clips \<open>end\<close> at \<open>len(xs)\<close>, as \<open>take\<close> does.\<close>

definition py_slice :: "'a list \<Rightarrow> nat \<Rightarrow> nat \<Rightarrow> 'a list" where
  "py_slice xs start en = take (en - start) (drop start xs)"

section \<open>The vocabulary\<close>

text \<open>
  \<open>convert_to_unicode\<close> returns a \<open>str\<close> unchanged and decodes \<open>bytes\<close> as UTF-8; texts are
  modelled after decoding, so it is the identity.
\<close>

definition convert_to_unicode :: "ustr \<Rightarrow> ustr" where
  "convert_to_unicode text = text"

text \<open>
  The vocabulary is the dictionary from token to index. \<open>load_vocab\<close> reads the file line
  by line: the argument of the model is the list of the lines that \<open>readline()\<close> returns
  (each with its line terminator), and \<open>readline()\<close> returns the empty string once the
  list is exhausted. The loop stops at the first empty string; \<open>vocab[token] = index\<close>
  overwrites the index of a token that is already a key.
\<close>

type_synonym vocab = "ustr \<rightharpoonup> nat"

fun load_vocab_loop :: "ustr list \<Rightarrow> vocab \<Rightarrow> nat \<Rightarrow> vocab" where
  "load_vocab_loop [] vocab index = vocab"
| "load_vocab_loop (line # reader) vocab index =
     (let token = convert_to_unicode line in
      if token = [] then vocab
      else (let token = py_strip token in
            load_vocab_loop reader (vocab(token \<mapsto> index)) (index + 1)))"

definition load_vocab :: "ustr list \<Rightarrow> vocab" where
  "load_vocab vocab_file = load_vocab_loop vocab_file Map.empty 0"

definition convert_by_vocab :: "('a \<rightharpoonup> 'b) \<Rightarrow> 'a list \<Rightarrow> py_error + 'b list" where
  "convert_by_vocab vocab items =
     foldl (\<lambda>output item.
              case output of Inl e \<Rightarrow> Inl e
              | Inr out \<Rightarrow> (case vocab item of None \<Rightarrow> Inl KeyError | Some v \<Rightarrow> Inr (out @ [v])))
           (Inr []) items"

section \<open>WordPiece segmentation\<close>

definition whitespace_tokenize :: "ustr \<Rightarrow> ustr list" where
  "whitespace_tokenize text =
     (let text = py_strip text in
      if text = [] then [] else py_split text)"

text \<open>
  The candidate that the inner loop of \<open>WordpieceTokenizer.tokenize\<close> tests for the
  cursor \<open>start\<close> and the end \<open>en\<close>: \<open>chars[start:end]\<close>, behind the continuation
  marker when \<open>start > 0\<close>.
\<close>

definition substr_at :: "ustr \<Rightarrow> nat \<Rightarrow> nat \<Rightarrow> ustr" where
  "substr_at chars start en =
     (let substr = py_slice chars start en in
      if start > 0 then pystr ''##'' @ substr else substr)"

text \<open>
  The inner loop: \<open>en\<close> runs down from \<open>len(chars)\<close> while \<open>start < en\<close>; the result is
  \<open>None\<close> when \<open>cur_substr\<close> stays \<open>None\<close>, and the final \<open>en\<close> with \<open>cur_substr\<close> at the
  \<open>break\<close>.
\<close>

fun longest_match :: "vocab \<Rightarrow> ustr \<Rightarrow> nat \<Rightarrow> nat \<Rightarrow> (nat \<times> ustr) option" where
  "longest_match vocab chars start 0 = None"
| "longest_match vocab chars start (Suc en) =
     (if start < Suc en then
        (let substr = substr_at chars start (Suc en)
         in if vocab substr \<noteq> None then Some (Suc en, substr)
            else longest_match vocab chars start en)
      else None)"

text \<open>
  The outer loop: \<open>None\<close> is \<open>is_bad = True\<close>, otherwise the sub-tokens collected when
  \<open>start\<close> has reached \<open>len(chars)\<close>.
\<close>

function wordpiece_loop :: "vocab \<Rightarrow> ustr \<Rightarrow> nat \<Rightarrow> ustr list \<Rightarrow> ustr list option" where
  "wordpiece_loop vocab chars start sub_tokens =
     (if start < length chars then
        (case longest_match vocab chars start (length chars) of
           None \<Rightarrow> None
         | Some (en, cur_substr) \<Rightarrow> wordpiece_loop vocab chars en (sub_tokens @ [cur_substr]))
      else Some sub_tokens)"
  by pat_completeness auto
termination
proof (relation "measure (\<lambda>(vocab, chars, start, sub_tokens). length chars - start)")
  show "wf (measure (\<lambda>(vocab, chars, start, sub_tokens). length chars - start))"
    by simp
next
  fix vocab :: vocab and chars :: ustr and start :: nat and sub_tokens :: "ustr list"
    and x2 :: "nat \<times> ustr" and en :: nat and cur_substr :: ustr
  assume running: "start < length chars"
    and found: "longest_match vocab chars start (length chars) = Some x2"
    and x2: "(en, cur_substr) = x2"
  have bounds: "longest_match vocab chars start n = Some (e, s) \<Longrightarrow> start < e \<and> e \<le> n"
    for n e s
    by (induction n) (auto simp: Let_def split: if_splits)
  from found x2 have "start < en" "en \<le> length chars"
    using bounds [of "length chars" en cur_substr] by auto
  then show "((vocab, chars, en, sub_tokens @ [cur_substr]), (vocab, chars, start, sub_tokens))
      \<in> measure (\<lambda>(vocab, chars, start, sub_tokens). length chars - start)"
    using running by simp
qed

declare wordpiece_loop.simps [simp del]

record WordpieceTokenizer =
  vocab :: vocab
  unk_token :: ustr
  max_input_chars_per_word :: int

text \<open>The body of the \<open>for token in whitespace_tokenize(text)\<close> loop: what one token adds.\<close>

definition wordpiece_token :: "WordpieceTokenizer \<Rightarrow> ustr \<Rightarrow> ustr list" where
  "wordpiece_token wp token =
     (let chars = token in
      if int (length chars) > max_input_chars_per_word wp then [unk_token wp]
      else (case wordpiece_loop (vocab wp) chars 0 [] of
              None \<Rightarrow> [unk_token wp]
            | Some sub_tokens \<Rightarrow> sub_tokens))"

definition tokenize :: "WordpieceTokenizer \<Rightarrow> ustr \<Rightarrow> ustr list" where
  "tokenize wp text =
     foldl (\<lambda>output_tokens token. output_tokens @ wordpiece_token wp token) []
       (whitespace_tokenize (convert_to_unicode text))"

text \<open>\<open>WordpieceTokenizer(vocab)\<close> with the default arguments of the constructor.\<close>

definition WordpieceTokenizer_init :: "vocab \<Rightarrow> WordpieceTokenizer" where
  "WordpieceTokenizer_init v =
     \<lparr>vocab = v, unk_token = pystr ''[UNK]'', max_input_chars_per_word = 400\<rparr>"

text \<open>
  The cursor positions of the outer loop, each with the sub-tokens found before it: the
  loop starts at 0 with none, and moves from a cursor inside the token to the end of the
  match found there.
\<close>

inductive cursor_reached :: "vocab \<Rightarrow> ustr \<Rightarrow> nat \<Rightarrow> ustr list \<Rightarrow> bool"
  for v :: vocab and chars :: ustr where
  initial: "cursor_reached v chars 0 []"
| advance: "cursor_reached v chars start sub_tokens \<Longrightarrow> start < length chars \<Longrightarrow>
     longest_match v chars start (length chars) = Some (en, cur_substr) \<Longrightarrow>
     cursor_reached v chars en (sub_tokens @ [cur_substr])"

code_pred cursor_reached .

section \<open>The einsum equation builders\<close>

text \<open>
  \<open>xs[i]\<close> for a Python integer \<open>i\<close>: a negative index counts from the end, and an index
  outside \<open>-len(xs) .. len(xs) - 1\<close> raises \<open>IndexError\<close>.
\<close>

definition py_index :: "'a list \<Rightarrow> int \<Rightarrow> py_error + 'a" where
  "py_index xs i =
     (if 0 \<le> i \<and> i < int (length xs) then Inr (xs ! nat i)
      else if - int (length xs) \<le> i \<and> i < 0 then Inr (xs ! nat (int (length xs) + i))
      else Inl IndexError)"

text \<open>\<open>range(n)\<close>: empty when \<open>n \<le> 0\<close>.\<close>

definition py_range :: "int \<Rightarrow> int list" where
  "py_range n = map int [0..<nat n]"

definition ascii_lowercase :: string where
  "ascii_lowercase = ''abcdefghijklmnopqrstuvwxyz''"

text \<open>The four strings that the loops of \<open>_build_proj_equation\<close> extend.\<close>

record equation_strings =
  input_str :: string
  kernel_str :: string
  output_str :: string
  bias_axes :: string

text \<open>
  The three \<open>for i in range(...)\<close> loops, each over the values of \<open>i\<close> that remain. The
  lookup \<open>_CHR_IDX[i + letter_offset]\<close> ends the function with its error when it raises.
\<close>

fun free_loop :: "string \<Rightarrow> int \<Rightarrow> int list \<Rightarrow> equation_strings \<Rightarrow> py_error + equation_strings" where
  "free_loop CHR_IDX letter_offset [] st = Inr st"
| "free_loop CHR_IDX letter_offset (i # rest) st =
     (case py_index CHR_IDX (i + letter_offset) of
        Inl e \<Rightarrow> Inl e
      | Inr char \<Rightarrow> free_loop CHR_IDX letter_offset rest
          (st\<lparr>input_str := input_str st @ [char], output_str := output_str st @ [char]\<rparr>))"

fun bound_loop :: "string \<Rightarrow> int \<Rightarrow> int list \<Rightarrow> equation_strings \<Rightarrow> py_error + equation_strings" where
  "bound_loop CHR_IDX letter_offset [] st = Inr st"
| "bound_loop CHR_IDX letter_offset (i # rest) st =
     (case py_index CHR_IDX (i + letter_offset) of
        Inl e \<Rightarrow> Inl e
      | Inr char \<Rightarrow> bound_loop CHR_IDX letter_offset rest
          (st\<lparr>input_str := input_str st @ [char], kernel_str := kernel_str st @ [char]\<rparr>))"

fun output_loop :: "string \<Rightarrow> int \<Rightarrow> int list \<Rightarrow> equation_strings \<Rightarrow> py_error + equation_strings" where
  "output_loop CHR_IDX letter_offset [] st = Inr st"
| "output_loop CHR_IDX letter_offset (i # rest) st =
     (case py_index CHR_IDX (i + letter_offset) of
        Inl e \<Rightarrow> Inl e
      | Inr char \<Rightarrow> output_loop CHR_IDX letter_offset rest
          (st\<lparr>kernel_str := kernel_str st @ [char], output_str := output_str st @ [char],
             bias_axes := bias_axes st @ [char]\<rparr>))"

text \<open>
  The body shared by the two builders: the three loops in sequence over the alphabet
  \<open>CHR_IDX\<close>, with \<open>letter_offset\<close> advanced between them.
\<close>

definition build_strings :: "string \<Rightarrow> int \<Rightarrow> int \<Rightarrow> int \<Rightarrow> py_error + equation_strings" where
  "build_strings CHR_IDX free_dims bound_dims output_dims =
     (let st = \<lparr>input_str = '''', kernel_str = '''', output_str = '''', bias_axes = ''''\<rparr>;
          letter_offset = 0
      in case free_loop CHR_IDX letter_offset (py_range free_dims) st of
           Inl e \<Rightarrow> Inl e
         | Inr st \<Rightarrow>
             (let letter_offset = letter_offset + free_dims
              in case bound_loop CHR_IDX letter_offset (py_range bound_dims) st of
                   Inl e \<Rightarrow> Inl e
                 | Inr st \<Rightarrow>
                     (let letter_offset = letter_offset + bound_dims
                      in output_loop CHR_IDX letter_offset (py_range output_dims) st)))"

text \<open>
  \<open>_build_proj_equation\<close> works over \<open>string.ascii_lowercase\<close> and returns the equation,
  the bias axes and \<open>len(output_str)\<close>.
\<close>

definition build_proj_equation :: "int \<Rightarrow> int \<Rightarrow> int \<Rightarrow> py_error + (string \<times> string \<times> int)" where
  "build_proj_equation free_dims bound_dims output_dims =
     (case build_strings ascii_lowercase free_dims bound_dims output_dims of
        Inl e \<Rightarrow> Inl e
      | Inr st \<Rightarrow>
          Inr (input_str st @ '','' @ kernel_str st @ ''->'' @ output_str st,
               bias_axes st, int (length (output_str st))))"

text \<open>
  \<open>DenseEinsum._build_einsum_string\<close> has the same three loops over the thirteen letters
  \<open>a\<close> to \<open>m\<close>; it keeps no bias axes and returns the equation alone.
\<close>

definition build_einsum_string :: "int \<Rightarrow> int \<Rightarrow> int \<Rightarrow> py_error + string" where
  "build_einsum_string free_input_dims bound_dims output_dims =
     (case build_strings ''abcdefghijklm'' free_input_dims bound_dims output_dims of
        Inl e \<Rightarrow> Inl e
      | Inr st \<Rightarrow> Inr (input_str st @ '','' @ kernel_str st @ ''->'' @ output_str st))"

section \<open>The basic tokenizer\<close>

text \<open>
  The tables of Python's \<open>unicodedata\<close> module and \<open>str.lower\<close> are not part of the
  program; the tokenizer is modelled over any such tables. \<open>category\<close> gives the
  two-letter general category of a character, \<open>normalize_NFD\<close> is
  \<open>unicodedata.normalize("NFD", _)\<close>.
\<close>

record unicodedata =
  category :: "uchar \<Rightarrow> string"
  normalize_NFD :: "ustr \<Rightarrow> ustr"
  lower :: "ustr \<Rightarrow> ustr"

definition is_control :: "unicodedata \<Rightarrow> uchar \<Rightarrow> bool" where
  "is_control ucd char =
     (if char = 9 \<or> char = 10 \<or> char = 13 then False
      else (let cat = category ucd char in
            if cat = ''Cc'' \<or> cat = ''Cf'' then True else False))"

definition is_whitespace :: "unicodedata \<Rightarrow> uchar \<Rightarrow> bool" where
  "is_whitespace ucd char =
     (if char = 32 \<or> char = 9 \<or> char = 10 \<or> char = 13 then True
      else (let cat = category ucd char in
            if cat = ''Zs'' then True else False))"

definition is_punctuation :: "unicodedata \<Rightarrow> uchar \<Rightarrow> bool" where
  "is_punctuation ucd char =
     (let cp = char in
      if (cp \<ge> 33 \<and> cp \<le> 47) \<or> (cp \<ge> 58 \<and> cp \<le> 64) \<or> (cp \<ge> 91 \<and> cp \<le> 96)
         \<or> (cp \<ge> 123 \<and> cp \<le> 126) then True
      else (let cat = category ucd char in
            if take 1 cat = ''P'' then True else False))"

definition is_chinese_char :: "nat \<Rightarrow> bool" where
  "is_chinese_char cp =
     (if (cp \<ge> 0x4E00 \<and> cp \<le> 0x9FFF) \<or> (cp \<ge> 0x3400 \<and> cp \<le> 0x4DBF)
         \<or> (cp \<ge> 0x20000 \<and> cp \<le> 0x2A6DF) \<or> (cp \<ge> 0x2A700 \<and> cp \<le> 0x2B73F)
         \<or> (cp \<ge> 0x2B740 \<and> cp \<le> 0x2B81F) \<or> (cp \<ge> 0x2B820 \<and> cp \<le> 0x2CEAF)
         \<or> (cp \<ge> 0xF900 \<and> cp \<le> 0xFAFF) \<or> (cp \<ge> 0x2F800 \<and> cp \<le> 0x2FA1F)
      then True else False)"

fun clean_text :: "unicodedata \<Rightarrow> ustr \<Rightarrow> ustr" where
  "clean_text ucd [] = []"
| "clean_text ucd (char # text) =
     (let cp = char in
      if cp = 0 \<or> cp = 0xFFFD \<or> is_control ucd char then clean_text ucd text
      else if is_whitespace ucd char then 32 # clean_text ucd text
      else char # clean_text ucd text)"

fun tokenize_chinese_chars :: "ustr \<Rightarrow> ustr" where
  "tokenize_chinese_chars [] = []"
| "tokenize_chinese_chars (char # text) =
     (let cp = char in
      if is_chinese_char cp then [32, char, 32] @ tokenize_chinese_chars text
      else char # tokenize_chinese_chars text)"

definition run_strip_accents :: "unicodedata \<Rightarrow> ustr \<Rightarrow> ustr" where
  "run_strip_accents ucd text =
     (let text = normalize_NFD ucd text in
      filter (\<lambda>char. category ucd char \<noteq> ''Mn'') text)"

text \<open>
  The loop of \<open>_run_split_on_punc\<close> over the characters that remain, with the state
  \<open>start_new_word\<close> and \<open>output\<close>. \<open>output[-1].append(char)\<close> is reached with a non-empty
  \<open>output\<close> only: \<open>start_new_word\<close> is false only after a word has been opened.
\<close>

fun split_on_punc_loop :: "unicodedata \<Rightarrow> ustr \<Rightarrow> bool \<Rightarrow> ustr list \<Rightarrow> ustr list" where
  "split_on_punc_loop ucd [] start_new_word output = output"
| "split_on_punc_loop ucd (char # chars) start_new_word output =
     (if is_punctuation ucd char then split_on_punc_loop ucd chars True (output @ [[char]])
      else (let output = (if start_new_word then output @ [[]] else output)
            in split_on_punc_loop ucd chars False (butlast output @ [last output @ [char]])))"

definition run_split_on_punc :: "unicodedata \<Rightarrow> ustr \<Rightarrow> ustr list" where
  "run_split_on_punc ucd text = split_on_punc_loop ucd text True []"

text \<open>\<open>sep.join(xs)\<close>.\<close>

fun py_join :: "ustr \<Rightarrow> ustr list \<Rightarrow> ustr" where
  "py_join sep [] = []"
| "py_join sep [x] = x"
| "py_join sep (x # y # ys) = x @ sep @ py_join sep (y # ys)"

record BasicTokenizer =
  do_lower_case :: bool
  split_on_punc :: bool

definition basic_tokenize :: "unicodedata \<Rightarrow> BasicTokenizer \<Rightarrow> ustr \<Rightarrow> ustr list" where
  "basic_tokenize ucd bt text =
     (let text = convert_to_unicode text;
          text = clean_text ucd text;
          text = tokenize_chinese_chars text;
          orig_tokens = whitespace_tokenize text;
          split_tokens =
            foldl (\<lambda>split_tokens token.
                     (let token = (if do_lower_case bt
                                   then run_strip_accents ucd (lower ucd token) else token)
                      in if split_on_punc bt then split_tokens @ run_split_on_punc ucd token
                         else split_tokens @ [token]))
                  [] orig_tokens;
          output_tokens = whitespace_tokenize (py_join [32] split_tokens)
      in output_tokens)"

section \<open>The full tokenizer and the BERT tokenization layer\<close>

record FullTokenizer =
  full_vocab :: vocab
  basic_tokenizer :: BasicTokenizer
  wordpiece_tokenizer :: WordpieceTokenizer

definition FullTokenizer_init :: "ustr list \<Rightarrow> bool \<Rightarrow> bool \<Rightarrow> FullTokenizer" where
  "FullTokenizer_init vocab_file lower_case on_punc =
     (let v = load_vocab vocab_file in
      \<lparr>full_vocab = v,
       basic_tokenizer = \<lparr>do_lower_case = lower_case, split_on_punc = on_punc\<rparr>,
       wordpiece_tokenizer = WordpieceTokenizer_init v\<rparr>)"

definition full_tokenize :: "unicodedata \<Rightarrow> FullTokenizer \<Rightarrow> ustr \<Rightarrow> ustr list" where
  "full_tokenize ucd ft text =
     foldl (\<lambda>split_tokens token.
              foldl (\<lambda>split_tokens sub_token. split_tokens @ [sub_token]) split_tokens
                (tokenize (wordpiece_tokenizer ft) token))
           [] (basic_tokenize ucd (basic_tokenizer ft) text)"

definition convert_tokens_to_ids :: "FullTokenizer \<Rightarrow> ustr list \<Rightarrow> py_error + nat list" where
  "convert_tokens_to_ids ft tokens = convert_by_vocab (full_vocab ft) tokens"

text \<open>
  \<open>BertTokenizer\<close>: the vocabulary file of \<open>constants.BERT_VOCAB_PATH\<close> is a parameter of
  the model, given by its lines.
\<close>

record BertTokenizer =
  tokenizer :: FullTokenizer
  max_sequence_length :: int

definition BertTokenizer_init :: "ustr list \<Rightarrow> int \<Rightarrow> BertTokenizer" where
  "BertTokenizer_init bert_vocab_file max_len =
     \<lparr>tokenizer = FullTokenizer_init bert_vocab_file True True, max_sequence_length = max_len\<rparr>"

definition encode_sentence :: "unicodedata \<Rightarrow> BertTokenizer \<Rightarrow> ustr \<Rightarrow> py_error + nat list" where
  "encode_sentence ucd layer s =
     (let tokens = full_tokenize ucd (tokenizer layer) s;
          tokens = tokens @ [pystr ''[SEP]''];
          encoded_sentence = convert_tokens_to_ids (tokenizer layer) tokens
      in encoded_sentence)"

text \<open>
  The input is a batch of rows, the sentence of a row being its element 0. The encoded
  sentences form a ragged tensor, modelled by the list of its rows; the first sentence
  that raises ends the call.
\<close>

fun get_encoded_sentence :: "unicodedata \<Rightarrow> BertTokenizer \<Rightarrow> ustr list list \<Rightarrow> py_error + nat list list" where
  "get_encoded_sentence ucd layer [] = Inr []"
| "get_encoded_sentence ucd layer (s # input_array) =
     (case py_index s 0 of
        Inl e \<Rightarrow> Inl e
      | Inr s0 \<Rightarrow>
          (case encode_sentence ucd layer s0 of
             Inl e \<Rightarrow> Inl e
           | Inr row \<Rightarrow>
               (case get_encoded_sentence ucd layer input_array of
                  Inl e \<Rightarrow> Inl e
                | Inr rows \<Rightarrow> Inr (row # rows))))"

text \<open>
  \<open>RaggedTensor.to_tensor()\<close> pads every row on the right with the default value 0 up to
  the length of the longest row.
\<close>

definition to_tensor :: "nat list list \<Rightarrow> nat list list" where
  "to_tensor rows =
     (let width = foldr max (map length rows) 0
      in map (\<lambda>row. row @ replicate (width - length row) 0) rows)"

text \<open>\<open>shape[-1]\<close> of a dense rank-2 tensor given by its rows (0 without rows).\<close>

definition last_dim :: "'a list list \<Rightarrow> nat" where
  "last_dim rows = (case rows of [] \<Rightarrow> 0 | row # _ \<Rightarrow> length row)"

text \<open>\<open>xs[:n]\<close> for a Python integer \<open>n\<close>: a negative \<open>n\<close> drops the last \<open>-n\<close> elements.\<close>

definition py_prefix :: "'a list \<Rightarrow> int \<Rightarrow> 'a list" where
  "py_prefix xs n = (if 0 \<le> n then take (nat n) xs else take (length xs - nat (- n)) xs)"

text \<open>
  \<open>bert_encode\<close>. For a batch without rows \<open>tf.ragged.constant([])\<close> is a dense tensor, which
  has no method \<open>to_tensor\<close>: after the class id has been looked up, the call raises
  \<open>AttributeError\<close>.
\<close>

definition bert_encode :: "unicodedata \<Rightarrow> BertTokenizer \<Rightarrow> ustr list list \<Rightarrow> py_error + nat list list" where
  "bert_encode ucd layer input_tensor =
     (case get_encoded_sentence ucd layer input_tensor of
        Inl e \<Rightarrow> Inl e
      | Inr sentence \<Rightarrow>
          (case convert_tokens_to_ids (tokenizer layer) [pystr ''[CLS]''] of
             Inl e \<Rightarrow> Inl e
           | Inr cls_ids \<Rightarrow>
               if sentence = [] then Inl AttributeError
               else
                 (let cls = replicate (length sentence) cls_ids;
                      input_word_ids = to_tensor (map2 (@) cls sentence);
                      input_word_ids =
                        (if int (last_dim input_word_ids) > max_sequence_length layer
                         then map (\<lambda>row. py_prefix row (max_sequence_length layer)) input_word_ids
                         else input_word_ids)
                  in Inr input_word_ids)))"

definition zeros_like :: "nat list list \<Rightarrow> nat list list" where
  "zeros_like t = map (map (\<lambda>_. 0)) t"

definition BertTokenizer_call :: "unicodedata \<Rightarrow> BertTokenizer \<Rightarrow> ustr list list
    \<Rightarrow> py_error + (nat list list \<times> nat list list \<times> nat list list)" where
  "BertTokenizer_call ucd layer inputs =
     (case bert_encode ucd layer inputs of
        Inl e \<Rightarrow> Inl e
      | Inr input_word_ids \<Rightarrow>
          (let input_mask = zeros_like input_word_ids;
               input_type_ids = zeros_like input_word_ids
           in Inr (input_word_ids, input_mask, input_type_ids)))"

text \<open>
  A table for concrete evaluations: the general categories, \<open>str.lower\<close> and the NFD form
  of the characters U+0000 to U+007F as Python has them. It is only applied to text in
  that range; outside it the table answers \<open>Cn\<close> and leaves the text as it is.
\<close>

definition ascii_category :: "uchar \<Rightarrow> string" where
  "ascii_category c =
     (if c < 32 \<or> c = 127 then ''Cc''
      else if c = 32 then ''Zs''
      else if 48 \<le> c \<and> c \<le> 57 then ''Nd''
      else if 65 \<le> c \<and> c \<le> 90 then ''Lu''
      else if 97 \<le> c \<and> c \<le> 122 then ''Ll''
      else if c = 36 then ''Sc''
      else if c \<in> {43, 60, 61, 62, 124, 126} then ''Sm''
      else if c \<in> {94, 96} then ''Sk''
      else if c = 45 then ''Pd''
      else if c = 95 then ''Pc''
      else if c \<in> {40, 91, 123} then ''Ps''
      else if c \<in> {41, 93, 125} then ''Pe''
      else if c < 128 then ''Po''
      else ''Cn'')"

definition ascii_unicodedata :: unicodedata where
  "ascii_unicodedata =
     \<lparr>category = ascii_category,
      normalize_NFD = (\<lambda>text. text),
      lower = map (\<lambda>c. if 65 \<le> c \<and> c \<le> 90 then c + 32 else c)\<rparr>"

text \<open>A vocabulary file of five lines, for concrete evaluations.\<close>

definition tiny_vocab_file :: "ustr list" where
  "tiny_vocab_file = map (\<lambda>s. pystr s @ [10]) [''[UNK]'', ''[CLS]'', ''[SEP]'', ''a'', ''b'']"

section \<open>Tensors\<close>

text \<open>
  A dense tensor is its shape and its values in row-major order. The scores and the mask
  of the masked softmax are modelled by real numbers: they are finite, and the arithmetic
  on them is exact. The values of the embedding table are \<open>float32\<close> values, below.
\<close>

record 'a tensor =
  shape :: "nat list"
  flat :: "'a list"

section \<open>The embedding lookup\<close>

text \<open>
  The weight of \<open>OnDeviceEmbedding\<close> has the dtype \<open>tf.float32\<close>. A \<open>float32\<close> value is a
  finite number (\<open>Finite 0\<close> is \<open>+0.0\<close>), \<open>-0.0\<close>, an infinity or a NaN. The arithmetic is
  that of IEEE 754: the special cases are written out, and every other result is the
  rounding \<open>rnd\<close> of the exact one. The rounding is a parameter: it maps a real number to
  the \<open>float32\<close> value that the kernel stores for it (to nearest, an infinity on overflow,
  and a zero for a subnormal number where the kernel flushes subnormals).
\<close>

datatype float32 = Finite real | NegZero | PosInf | NegInf | NaN

definition is_inf :: "float32 \<Rightarrow> bool" where
  "is_inf x = (x = PosInf \<or> x = NegInf)"

definition is_zero :: "float32 \<Rightarrow> bool" where
  "is_zero x = (x = Finite 0 \<or> x = NegZero)"

fun signbit :: "float32 \<Rightarrow> bool" where
  "signbit (Finite r) = (r < 0)"
| "signbit NegZero = True"
| "signbit PosInf = False"
| "signbit NegInf = True"
| "signbit NaN = False"

fun float_val :: "float32 \<Rightarrow> real" where
  "float_val (Finite r) = r"
| "float_val NegZero = 0"
| "float_val PosInf = 0"
| "float_val NegInf = 0"
| "float_val NaN = 0"

text \<open>
  The product: NaN for a NaN operand and for zero times infinity, a signed infinity or a
  signed zero where an operand is one, the rounded product otherwise.
\<close>

definition fmul :: "(real \<Rightarrow> float32) \<Rightarrow> float32 \<Rightarrow> float32 \<Rightarrow> float32" where
  "fmul rnd x y =
     (if x = NaN \<or> y = NaN then NaN
      else if is_inf x \<or> is_inf y
        then (if is_zero x \<or> is_zero y then NaN
              else if signbit x \<noteq> signbit y then NegInf else PosInf)
      else if is_zero x \<or> is_zero y
        then (if signbit x \<noteq> signbit y then NegZero else Finite 0)
      else rnd (float_val x * float_val y))"

text \<open>
  The sum: NaN for a NaN operand and for two infinities of opposite signs, the infinity
  where an operand is one, \<open>-0.0\<close> for \<open>-0.0 + -0.0\<close> and \<open>+0.0\<close> for every other exact sum
  0, the rounded sum otherwise.
\<close>

definition fadd :: "(real \<Rightarrow> float32) \<Rightarrow> float32 \<Rightarrow> float32 \<Rightarrow> float32" where
  "fadd rnd x y =
     (if x = NaN \<or> y = NaN then NaN
      else if is_inf x \<and> is_inf y then (if x = y then x else NaN)
      else if is_inf x then x
      else if is_inf y then y
      else if float_val x + float_val y = 0
        then (if x = NegZero \<and> y = NegZero then NegZero else Finite 0)
      else rnd (float_val x + float_val y))"

text \<open>
  \<open>OnDeviceEmbedding\<close> with the weight \<open>embeddings\<close> that \<open>build\<close> creates, of shape
  \<open>[vocab_size, embedding_width]\<close> and dtype \<open>tf.float32\<close>, given by its rows.
\<close>

record OnDeviceEmbedding =
  vocab_size :: nat
  embedding_width :: nat
  use_one_hot :: bool
  embeddings :: "float32 list list"

text \<open>
  \<open>tf.one_hot\<close> with the dtype of the weight: 1.0 at the index and 0.0 elsewhere; the row
  of an index outside \<open>0 .. depth - 1\<close> is all zeros.
\<close>

definition one_hot :: "int list \<Rightarrow> nat \<Rightarrow> float32 list list" where
  "one_hot indices depth =
     map (\<lambda>i. map (\<lambda>k. if int k = i then Finite 1 else Finite 0) [0..<depth]) indices"

text \<open>
  \<open>tf.matmul\<close> of two \<open>float32\<close> matrices given by their rows; the inner dimensions must
  agree. An entry of the product is the sum of the products along the inner dimension,
  accumulated from \<open>+0.0\<close> in the order of the index. (The kernel may add in another order;
  the results below do not depend on it.)
\<close>

definition matmul ::
  "(real \<Rightarrow> float32) \<Rightarrow> float32 list list \<Rightarrow> float32 list list \<Rightarrow> py_error + float32 list list" where
  "matmul rnd a b =
     (if \<forall>row\<in>set a. length row = length b
      then Inr (map (\<lambda>row. map (\<lambda>j. foldl (fadd rnd) (Finite 0)
                                        (map (\<lambda>k. fmul rnd (row ! k) (b ! k ! j)) [0..<length b]))
                               [0..<last_dim b]) a)
      else Inl InvalidArgumentError)"

text \<open>\<open>tf.gather\<close> along axis 0; an index out of range is an error (as on a CPU).\<close>

definition gather :: "'a list \<Rightarrow> int list \<Rightarrow> py_error + 'a list" where
  "gather params indices =
     (if \<forall>i\<in>set indices. 0 \<le> i \<and> i < int (length params)
      then Inr (map (\<lambda>i. params ! nat i) indices)
      else Inl InvalidArgumentError)"

text \<open>
  \<open>tf.reshape\<close> of a matrix given by its rows to the shape \<open>new_shape\<close>: the values keep
  their row-major order, and their number must be the product of the new shape.
\<close>

definition reshape_rows :: "'a list list \<Rightarrow> nat list \<Rightarrow> py_error + 'a tensor" where
  "reshape_rows rows new_shape =
     (if length (concat rows) = prod_list new_shape
      then Inr \<lparr>shape = new_shape, flat = concat rows\<rparr>
      else Inl InvalidArgumentError)"

text \<open>\<open>OnDeviceEmbedding.call\<close>, on the arithmetic with the rounding \<open>rnd\<close>.\<close>

definition OnDeviceEmbedding_call ::
  "(real \<Rightarrow> float32) \<Rightarrow> OnDeviceEmbedding \<Rightarrow> int tensor \<Rightarrow> py_error + float32 tensor" where
  "OnDeviceEmbedding_call rnd layer inputs =
     (let flat_inputs = flat inputs in
      case (if use_one_hot layer
            then (let one_hot_data = one_hot flat_inputs (vocab_size layer)
                  in matmul rnd one_hot_data (embeddings layer))
            else gather (embeddings layer) flat_inputs) of
        Inl e \<Rightarrow> Inl e
      | Inr looked_up \<Rightarrow> reshape_rows looked_up (shape inputs @ [embedding_width layer]))"

text \<open>
  A table entry is kept by the arithmetic when it is a finite number that is \<open>+0.0\<close> or
  that the rounding returns unchanged.
\<close>

definition kept_by :: "(real \<Rightarrow> float32) \<Rightarrow> float32 \<Rightarrow> bool" where
  "kept_by rnd x = (case x of Finite r \<Rightarrow> r = 0 \<or> rnd r = Finite r | _ \<Rightarrow> False)"

text \<open>
  A rounding for evaluation, on the numbers that \<open>float32\<close> represents: a number below the
  least normal number \<open>2 ^ -126\<close> in absolute value is flushed to the zero of its sign, and
  every other number is returned unchanged.
\<close>

definition flush_to_zero :: "real \<Rightarrow> float32" where
  "flush_to_zero r =
     (if r \<noteq> 0 \<and> \<bar>r\<bar> < 1 / 2 ^ 126 then (if r < 0 then NegZero else Finite 0) else Finite r)"

section \<open>The masked softmax\<close>


text \<open>
  The multi-indices of a shape in row-major order, the position of a multi-index in that
  order, and the value of a tensor at a multi-index.
\<close>

fun indices :: "nat list \<Rightarrow> nat list list" where
  "indices [] = [[]]"
| "indices (d # ds) = concat (map (\<lambda>i. map ((#) i) (indices ds)) [0..<d])"












section \<open>Properties of the vocabulary loader\<close>

lemma load_vocab_loop_other:
  "t \<notin> py_strip ` set ls \<Longrightarrow> load_vocab_loop ls m k t = m t"
  by (induction ls arbitrary: m k) (auto simp: convert_to_unicode_def Let_def)

lemma load_vocab_loop_dom:
  "[] \<notin> set ls \<Longrightarrow> dom (load_vocab_loop ls m k) = dom m \<union> py_strip ` set ls"
  by (induction ls arbitrary: m k) (auto simp: convert_to_unicode_def Let_def)

lemma load_vocab_loop_last:
  "[] \<notin> set ls \<Longrightarrow> i < length ls \<Longrightarrow>
   (\<forall>j. i < j \<and> j < length ls \<longrightarrow> py_strip (ls ! j) \<noteq> py_strip (ls ! i)) \<Longrightarrow>
   load_vocab_loop ls m k (py_strip (ls ! i)) = Some (k + i)"
proof (induction ls arbitrary: m k i)
  case Nil
  then show ?case by simp
next
  case (Cons l rest)
  from Cons.prems have l: "l \<noteq> []" and rest: "[] \<notin> set rest" by auto
  show ?case
  proof (cases i)
    case 0
    have "py_strip l \<notin> py_strip ` set rest"
    proof
      assume "py_strip l \<in> py_strip ` set rest"
      then obtain j where "j < length rest" "py_strip (rest ! j) = py_strip l"
        by (auto simp: in_set_conv_nth)
      with Cons.prems(3) [rule_format, of "Suc j"] 0 show False by simp
    qed
    then show ?thesis
      using l 0 by (simp add: convert_to_unicode_def load_vocab_loop_other)
  next
    case (Suc i')
    have later: "\<forall>j. i' < j \<and> j < length rest \<longrightarrow> py_strip (rest ! j) \<noteq> py_strip (rest ! i')"
    proof (intro allI impI)
      fix j assume "i' < j \<and> j < length rest"
      with Cons.prems(3) [rule_format, of "Suc j"] Suc
      show "py_strip (rest ! j) \<noteq> py_strip (rest ! i')" by simp
    qed
    from Cons.prems(2) Suc have i': "i' < length rest" by simp
    have "load_vocab_loop rest (m(py_strip l \<mapsto> k)) (k + 1) (py_strip (rest ! i'))
        = Some (k + 1 + i')"
      by (rule Cons.IH [OF rest i' later])
    then show ?thesis using l Suc by (simp add: convert_to_unicode_def)
  qed
qed

lemma last_index_exists:
  assumes "t \<in> f ` set ls"
  shows "\<exists>i<length ls. f (ls ! i) = t \<and> (\<forall>j. i < j \<and> j < length ls \<longrightarrow> f (ls ! j) \<noteq> t)"
proof -
  let ?S = "{i. i < length ls \<and> f (ls ! i) = t}"
  have fin: "finite ?S" by simp
  from assms have ne: "?S \<noteq> {}" by (auto simp: in_set_conv_nth)
  have mem: "Max ?S \<in> ?S" using Max_in [OF fin ne] .
  have "\<forall>j. Max ?S < j \<and> j < length ls \<longrightarrow> f (ls ! j) \<noteq> t"
  proof (intro allI impI notI)
    fix j assume j: "Max ?S < j \<and> j < length ls" and "f (ls ! j) = t"
    then have "j \<in> ?S" by simp
    then have "j \<le> Max ?S" using Max_ge [OF fin] by blast
    with j show False by simp
  qed
  with mem show ?thesis by blast
qed

text \<open>
  Claim C2, as amended. For every vocabulary source (the list of its lines, none empty
  since every line carries its terminator): the keys of the vocabulary are the lines
  with leading and trailing whitespace stripped, each key once; the index of a key is
  the 0-indexed number of the last line that strips to it; and when no two lines strip
  to the same token, line \<open>i\<close> defines the token of index \<open>i\<close>, so that the indices are
  exactly \<open>0, ..., n - 1\<close>.
\<close>

theorem load_vocab_last_occurrence:
  assumes "[] \<notin> set lines"
  shows "dom (load_vocab lines) = set (map py_strip lines) \<and>
    (\<forall>t i. load_vocab lines t = Some i \<longleftrightarrow>
       i < length lines \<and> py_strip (lines ! i) = t \<and>
       (\<forall>j. i < j \<and> j < length lines \<longrightarrow> py_strip (lines ! j) \<noteq> t)) \<and>
    (distinct (map py_strip lines) \<longrightarrow>
       (\<forall>i<length lines. load_vocab lines (py_strip (lines ! i)) = Some i) \<and>
       ran (load_vocab lines) = {0..<length lines})"
proof (intro conjI allI impI)
  show dom: "dom (load_vocab lines) = set (map py_strip lines)"
    using assms by (simp add: load_vocab_def load_vocab_loop_dom)
  have last: "load_vocab lines (py_strip (lines ! i)) = Some i"
    if "i < length lines"
      "\<forall>j. i < j \<and> j < length lines \<longrightarrow> py_strip (lines ! j) \<noteq> py_strip (lines ! i)" for i
    using load_vocab_loop_last [OF assms that, of Map.empty 0] by (simp add: load_vocab_def)
  show iff: "load_vocab lines t = Some i \<longleftrightarrow>
       i < length lines \<and> py_strip (lines ! i) = t \<and>
       (\<forall>j. i < j \<and> j < length lines \<longrightarrow> py_strip (lines ! j) \<noteq> t)" for t i
  proof
    assume v: "load_vocab lines t = Some i"
    then have "t \<in> py_strip ` set lines" using dom by auto
    from last_index_exists [OF this] obtain i' where i': "i' < length lines"
      "py_strip (lines ! i') = t"
      "\<forall>j. i' < j \<and> j < length lines \<longrightarrow> py_strip (lines ! j) \<noteq> t" by blast
    with last [of i'] v have "i = i'" by simp
    with i' show "i < length lines \<and> py_strip (lines ! i) = t \<and>
       (\<forall>j. i < j \<and> j < length lines \<longrightarrow> py_strip (lines ! j) \<noteq> t)" by simp
  next
    assume "i < length lines \<and> py_strip (lines ! i) = t \<and>
       (\<forall>j. i < j \<and> j < length lines \<longrightarrow> py_strip (lines ! j) \<noteq> t)"
    with last [of i] show "load_vocab lines t = Some i" by auto
  qed
  assume d: "distinct (map py_strip lines)"
  show all: "load_vocab lines (py_strip (lines ! i)) = Some i" if "i < length lines" for i
  proof (rule last [OF that], intro allI impI)
    fix j assume "i < j \<and> j < length lines"
    with d that show "py_strip (lines ! j) \<noteq> py_strip (lines ! i)"
      by (auto simp: distinct_conv_nth)
  qed
  show "ran (load_vocab lines) = {0..<length lines}"
  proof (intro set_eqI iffI)
    fix i assume "i \<in> ran (load_vocab lines)"
    then obtain t where "load_vocab lines t = Some i" by (auto simp: ran_def)
    with iff show "i \<in> {0..<length lines}" by simp
  next
    fix i assume "i \<in> {0..<length lines}"
    then show "i \<in> ran (load_vocab lines)" using all [of i] by (auto simp: ran_def)
  qed
qed

theorem load_vocab_last_occurrence_witness:
  "[] \<notin> set [[32] @ pystr ''a'' @ [10], pystr ''b'' @ [10]] \<and>
   dom (load_vocab [[32] @ pystr ''a'' @ [10], pystr ''b'' @ [10]]) = {pystr ''a'', pystr ''b''} \<and>
   load_vocab [[32] @ pystr ''a'' @ [10], pystr ''b'' @ [10]] (pystr ''b'') = Some 1 \<and>
   ran (load_vocab [[32] @ pystr ''a'' @ [10], pystr ''b'' @ [10]]) = {0..<2}"
proof -
  let ?L = "[[32] @ pystr ''a'' @ [10], pystr ''b'' @ [10]]"
  have h: "[] \<notin> set ?L" by simp
  have s: "map py_strip ?L = [pystr ''a'', pystr ''b'']"
    by (simp add: pystr_def py_strip_def py_isspace_def)
  have d: "distinct (map py_strip ?L)"
    unfolding s by (simp add: pystr_def)
  from load_vocab_last_occurrence [OF h] d
  have dm: "dom (load_vocab ?L) = set (map py_strip ?L)"
    and ix: "\<forall>i<length ?L. load_vocab ?L (py_strip (?L ! i)) = Some i"
    and rn: "ran (load_vocab ?L) = {0..<length ?L}"
    by blast+
  have b: "py_strip (?L ! 1) = pystr ''b''"
    by (simp add: pystr_def py_strip_def py_isspace_def)
  have "load_vocab ?L (py_strip (?L ! 1)) = Some 1"
    using ix [rule_format, of 1] by simp
  then have "load_vocab ?L (pystr ''b'') = Some 1"
    unfolding b .
  moreover have "dom (load_vocab ?L) = {pystr ''a'', pystr ''b''}"
    using dm unfolding s by simp
  moreover have "ran (load_vocab ?L) = {0..<2}"
    using rn by (simp add: numeral_2_eq_2)
  ultimately show ?thesis using h by simp
qed

text \<open>
  Claim C2 as stated fails: when the token \<open>a\<close> is on lines 0 and 1, its index is 1, not
  the number of the line of its first occurrence, and no token has index 0; and the
  line \<open>" b"\<close> defines the token \<open>b\<close>, its leading whitespace stripped as well.
\<close>

theorem load_vocab_first_occurrence_counterexample:
  "load_vocab [pystr ''a'' @ [10], pystr ''a'' @ [10]] (pystr ''a'') = Some 1 \<and>
   py_strip ([pystr ''a'' @ [10], pystr ''a'' @ [10]] ! 0) = pystr ''a'' \<and>
   0 \<notin> ran (load_vocab [pystr ''a'' @ [10], pystr ''a'' @ [10]]) \<and>
   load_vocab [[32] @ pystr ''b'' @ [10]] (pystr ''b'') = Some 0 \<and>
   load_vocab [[32] @ pystr ''b'' @ [10]] ([32] @ pystr ''b'') = None"
  by (simp add: load_vocab_def pystr_def py_strip_def py_isspace_def convert_to_unicode_def
      ran_def)

section \<open>Properties of the WordPiece segmentation\<close>

lemma marker_eq: "pystr ''##'' = [35, 35]"
  by (simp add: pystr_def)

lemma longest_match_Some:
  "longest_match v chars start n = Some (e, s) \<Longrightarrow>
   start < e \<and> e \<le> n \<and> s = substr_at chars start e \<and> v s \<noteq> None \<and>
   (\<forall>e'. e < e' \<and> e' \<le> n \<longrightarrow> v (substr_at chars start e') = None)"
proof (induction n)
  case 0
  then show ?case by simp
next
  case (Suc n)
  show ?case
  proof (cases "start < Suc n \<and> v (substr_at chars start (Suc n)) \<noteq> None")
    case True
    with Suc.prems show ?thesis by (auto simp: Let_def)
  next
    case False
    with Suc.prems have rec: "longest_match v chars start n = Some (e, s)"
      and none: "v (substr_at chars start (Suc n)) = None"
      by (auto simp: Let_def split: if_splits)
    from Suc.IH [OF rec] none show ?thesis
      by (auto simp: le_Suc_eq)
  qed
qed

lemma longest_match_None:
  "(\<forall>e. start < e \<and> e \<le> n \<longrightarrow> v (substr_at chars start e) = None) \<Longrightarrow>
   longest_match v chars start n = None"
  by (induction n) (auto simp: Let_def)

lemma wordpiece_loop_pieces:
  "wordpiece_loop v chars start subs = Some out \<Longrightarrow> 0 < start \<Longrightarrow> start \<le> length chars \<Longrightarrow>
   \<exists>ps. out = subs @ ps \<and> concat (map (drop 2) ps) = drop start chars \<and>
     (\<forall>s\<in>set ps. take 2 s = pystr ''##'' \<and> 2 < length s \<and> v s \<noteq> None)"
proof (induction v chars start subs rule: wordpiece_loop.induct)
  case (1 v chars start subs)
  show ?case
  proof (cases "start < length chars")
    case False
    with "1.prems" show ?thesis
      by (simp add: wordpiece_loop.simps)
  next
    case True
    with "1.prems" obtain e s where m: "longest_match v chars start (length chars) = Some (e, s)"
      and rec: "wordpiece_loop v chars e (subs @ [s]) = Some out"
      by (auto simp: wordpiece_loop.simps [of v chars start] split: option.splits)
    from longest_match_Some [OF m] have b: "start < e" "e \<le> length chars"
      and s: "s = substr_at chars start e" and vs: "v s \<noteq> None" by auto
    from "1.IH" [OF True m refl rec] b "1.prems" obtain ps where
      ps: "out = (subs @ [s]) @ ps" "concat (map (drop 2) ps) = drop e chars"
      "\<forall>s\<in>set ps. take 2 s = pystr ''##'' \<and> 2 < length s \<and> v s \<noteq> None"
      by auto
    from s "1.prems" have s': "s = pystr ''##'' @ take (e - start) (drop start chars)"
      by (simp add: substr_at_def py_slice_def)
    have "take (e - start) (drop start chars) @ drop e chars = drop start chars"
    proof -
      have "drop e chars = drop (e - start) (drop start chars)" using b by simp
      then show ?thesis by (simp only: append_take_drop_id)
    qed
    then have cc: "concat (map (drop 2) (s # ps)) = drop start chars"
      using ps(2) s' by (simp add: marker_eq)
    have "take 2 s = pystr ''##'' \<and> 2 < length s \<and> v s \<noteq> None"
      using s' vs b by (simp add: marker_eq)
    with ps(3) have "\<forall>s\<in>set (s # ps). take 2 s = pystr ''##'' \<and> 2 < length s \<and> v s \<noteq> None"
      by simp
    with cc ps(1) show ?thesis
      by (intro exI [of _ "s # ps"]) simp
  qed
qed

lemma wordpiece_loop_from_0:
  assumes "wordpiece_loop v chars 0 [] = Some out" "chars \<noteq> []"
  shows "\<exists>p ps. out = p # ps \<and> p \<noteq> [] \<and> v p \<noteq> None \<and> p @ concat (map (drop 2) ps) = chars \<and>
     (\<forall>s\<in>set ps. take 2 s = pystr ''##'' \<and> 2 < length s \<and> v s \<noteq> None)"
proof -
  from assms obtain e s where m: "longest_match v chars 0 (length chars) = Some (e, s)"
    and rec: "wordpiece_loop v chars e ([] @ [s]) = Some out"
    by (auto simp: wordpiece_loop.simps [of v chars 0] split: option.splits)
  from longest_match_Some [OF m] have b: "0 < e" "e \<le> length chars"
    and s: "s = substr_at chars 0 e" and vs: "v s \<noteq> None" by auto
  from wordpiece_loop_pieces [OF rec b] obtain ps where
    ps: "out = [s] @ ps" "concat (map (drop 2) ps) = drop e chars"
    "\<forall>s\<in>set ps. take 2 s = pystr ''##'' \<and> 2 < length s \<and> v s \<noteq> None"
    by auto
  from s have s': "s = take e chars" by (simp add: substr_at_def py_slice_def)
  with b assms(2) have "s \<noteq> []" by auto
  moreover have "s @ concat (map (drop 2) ps) = chars" using s' ps(2) by simp
  ultimately show ?thesis using ps vs by auto
qed

lemma cursor_reached_loop:
  "cursor_reached v chars start subs \<Longrightarrow>
   wordpiece_loop v chars 0 [] = wordpiece_loop v chars start subs"
proof (induction rule: cursor_reached.induct)
  case initial
  show ?case by simp
next
  case (advance start sub_tokens en cur_substr)
  then show ?case
    by (simp add: wordpiece_loop.simps [of v chars start])
qed

lemma py_split_from_token:
  "\<forall>c\<in>set cs. \<not> py_isspace c \<Longrightarrow> cur @ cs \<noteq> [] \<Longrightarrow> py_split_from cur cs = [cur @ cs]"
proof (induction cs arbitrary: cur)
  case Nil
  then show ?case by simp
next
  case (Cons c cs)
  from Cons.prems have c: "\<not> py_isspace c" and cs: "\<forall>c\<in>set cs. \<not> py_isspace c" by simp_all
  have "py_split_from (cur @ [c]) cs = [(cur @ [c]) @ cs]"
    by (rule Cons.IH [OF cs]) simp
  then have "py_split_from (cur @ [c]) cs = [cur @ c # cs]" by simp
  moreover have "py_split_from cur (c # cs) = py_split_from (cur @ [c]) cs"
    using c by (simp only: py_split_from.simps if_False)
  ultimately show ?case by (simp only:)
qed

lemma dropWhile_none: "\<forall>x\<in>set xs. \<not> P x \<Longrightarrow> dropWhile P xs = xs"
  by (cases xs) simp_all

lemma py_strip_token: "\<forall>c\<in>set t. \<not> py_isspace c \<Longrightarrow> py_strip t = t"
proof -
  assume a: "\<forall>c\<in>set t. \<not> py_isspace c"
  then have "\<forall>c\<in>set (rev t). \<not> py_isspace c" by simp
  then have "dropWhile py_isspace (rev t) = rev t" by (rule dropWhile_none)
  with dropWhile_none [OF a] show ?thesis by (simp add: py_strip_def)
qed

lemma whitespace_tokenize_token:
  "t \<noteq> [] \<Longrightarrow> \<forall>c\<in>set t. \<not> py_isspace c \<Longrightarrow> whitespace_tokenize t = [t]"
  using py_split_from_token [of t "[]"]
  by (simp add: whitespace_tokenize_def py_strip_token py_split_def)

lemma tokenize_token:
  "t \<noteq> [] \<Longrightarrow> \<forall>c\<in>set t. \<not> py_isspace c \<Longrightarrow> tokenize wp t = wordpiece_token wp t"
  by (simp add: tokenize_def convert_to_unicode_def whitespace_tokenize_token)

text \<open>
  Claim C6. The word \<open>unaffable\<close> is tokenized into exactly \<open>[un, ##aff, ##able]\<close> by
  greedy longest-match segmentation: at every cursor the scan takes the longest
  candidate from the cursor to the end of the token that is in the vocabulary, with the
  marker \<open>##\<close> before the candidate unless the cursor is 0 (lemma \<open>longest_match_Some\<close>).
  The hypotheses say that \<open>un\<close>, \<open>##aff\<close> and \<open>##able\<close> are in the vocabulary and are these
  longest matches at the cursors 0, 2 and 5: none of the longer candidates that the scan
  tests before them is in the vocabulary. The vocabulary of the three strings alone is
  such a vocabulary.
\<close>

theorem tokenize_unaffable:
  assumes "vocab wp (pystr ''un'') \<noteq> None" and "vocab wp (pystr ''##aff'') \<noteq> None"
    and "vocab wp (pystr ''##able'') \<noteq> None"
    and "\<forall>s\<in>set [''unaffable'', ''unaffabl'', ''unaffab'', ''unaffa'', ''unaff'', ''unaf'', ''una'',
        ''##affable'', ''##affabl'', ''##affab'', ''##affa'']. vocab wp (pystr s) = None"
    and "9 \<le> max_input_chars_per_word wp"
  shows "tokenize wp (pystr ''unaffable'') = [pystr ''un'', pystr ''##aff'', pystr ''##able'']"
proof -
  let ?chars = "[117, 110, 97, 102, 102, 97, 98, 108, 101] :: ustr"
  let ?v = "vocab wp"
  note voc = assms(1-4) [unfolded pystr_def, simplified]
  have n9: "length ?chars = Suc (Suc (Suc (Suc (Suc (Suc (Suc (Suc (Suc 0))))))))" by simp
  have m0: "longest_match ?v ?chars 0 (length ?chars) = Some (2, [117, 110])"
    unfolding n9 using voc by (simp add: substr_at_def py_slice_def)
  have m2: "longest_match ?v ?chars 2 (length ?chars) = Some (5, [35, 35, 97, 102, 102])"
    unfolding n9 using voc by (simp add: substr_at_def py_slice_def marker_eq)
  have m5: "longest_match ?v ?chars 5 (length ?chars) = Some (9, [35, 35, 97, 98, 108, 101])"
    unfolding n9 using voc by (simp add: substr_at_def py_slice_def marker_eq)
  have l9: "wordpiece_loop ?v ?chars 9 subs = Some subs" for subs
    by (simp add: wordpiece_loop.simps [of _ _ 9])
  have l5: "wordpiece_loop ?v ?chars 5 subs = Some (subs @ [[35, 35, 97, 98, 108, 101]])" for subs
    using m5 l9 by (simp add: wordpiece_loop.simps [of _ _ 5])
  have l2: "wordpiece_loop ?v ?chars 2 subs
      = Some (subs @ [[35, 35, 97, 102, 102], [35, 35, 97, 98, 108, 101]])" for subs
    using m2 l5 by (simp add: wordpiece_loop.simps [of _ _ 2])
  have l0: "wordpiece_loop ?v ?chars 0 []
      = Some [[117, 110], [35, 35, 97, 102, 102], [35, 35, 97, 98, 108, 101]]"
    using m0 l2 by (simp add: wordpiece_loop.simps [of _ _ 0])
  have "wordpiece_token wp ?chars = [[117, 110], [35, 35, 97, 102, 102], [35, 35, 97, 98, 108, 101]]"
    using l0 assms(5) by (simp add: wordpiece_token_def)
  moreover have "tokenize wp ?chars = wordpiece_token wp ?chars"
    by (rule tokenize_token) (simp_all add: py_isspace_def)
  ultimately show ?thesis by (simp add: pystr_def)
qed

theorem tokenize_unaffable_witness:
  "tokenize (WordpieceTokenizer_init
       [pystr ''un'' \<mapsto> 0, pystr ''##aff'' \<mapsto> 1, pystr ''##able'' \<mapsto> 2])
     (pystr ''unaffable'') = [pystr ''un'', pystr ''##aff'', pystr ''##able'']"
  by (rule tokenize_unaffable) (simp_all add: WordpieceTokenizer_init_def pystr_def)

text \<open>
  Claim C7. For a token of the basic split (non-empty, without whitespace): when it has
  more characters than \<open>max_input_chars_per_word\<close> (400 unless the constructor is given
  another value), the result is the unknown token alone; and when the scan reaches a
  cursor inside the token at which no candidate is in the vocabulary, the result is the
  unknown token alone, whatever sub-tokens were found before that cursor. \<open>tokenize\<close> has
  no failing branch: in both cases it returns.
\<close>

theorem wordpiece_unknown_fallback:
  assumes "token \<noteq> []" and "\<forall>c\<in>set token. \<not> py_isspace c"
  shows "(int (length token) > max_input_chars_per_word wp \<longrightarrow>
      tokenize wp token = [unk_token wp]) \<and>
    (cursor_reached (vocab wp) token start sub_tokens \<and> start < length token \<and>
     (\<forall>en. start < en \<and> en \<le> length token \<longrightarrow> vocab wp (substr_at token start en) = None) \<longrightarrow>
      tokenize wp token = [unk_token wp]) \<and>
    max_input_chars_per_word (WordpieceTokenizer_init v) = 400 \<and>
    unk_token (WordpieceTokenizer_init v) = pystr ''[UNK]''"
proof (intro conjI impI)
  assume "int (length token) > max_input_chars_per_word wp"
  then show "tokenize wp token = [unk_token wp]"
    using assms by (simp add: tokenize_token wordpiece_token_def)
next
  assume a: "cursor_reached (vocab wp) token start sub_tokens \<and> start < length token \<and>
     (\<forall>en. start < en \<and> en \<le> length token \<longrightarrow> vocab wp (substr_at token start en) = None)"
  then have "longest_match (vocab wp) token start (length token) = None"
    by (intro longest_match_None) simp
  with a have "wordpiece_loop (vocab wp) token start sub_tokens = None"
    by (simp add: wordpiece_loop.simps [of _ token start])
  moreover from a have "wordpiece_loop (vocab wp) token 0 []
      = wordpiece_loop (vocab wp) token start sub_tokens"
    by (intro cursor_reached_loop) simp
  ultimately have "wordpiece_loop (vocab wp) token 0 [] = None"
    by simp
  then show "tokenize wp token = [unk_token wp]"
    using assms by (simp add: tokenize_token wordpiece_token_def)
next
  show "max_input_chars_per_word (WordpieceTokenizer_init v) = 400"
    by (simp add: WordpieceTokenizer_init_def)
next
  show "unk_token (WordpieceTokenizer_init v) = pystr ''[UNK]''"
    by (simp add: WordpieceTokenizer_init_def)
qed

theorem wordpiece_unknown_fallback_witness:
  "tokenize (WordpieceTokenizer_init [pystr ''a'' \<mapsto> 0]) (replicate 401 97) = [pystr ''[UNK]''] \<and>
   tokenize (WordpieceTokenizer_init [pystr ''un'' \<mapsto> 0]) (pystr ''unx'') = [pystr ''[UNK]'']"
proof -
  let ?wp1 = "WordpieceTokenizer_init [pystr ''a'' \<mapsto> 0]"
  let ?long = "replicate 401 97 :: ustr"
  let ?v = "[pystr ''un'' \<mapsto> (0::nat)]"
  let ?wp2 = "WordpieceTokenizer_init ?v"
  let ?t = "pystr ''unx''"
  have tok1: "?long \<noteq> []" "\<forall>c\<in>set ?long. \<not> py_isspace c"
    by (simp_all add: py_isspace_def)
  have tok2: "?t \<noteq> []" "\<forall>c\<in>set ?t. \<not> py_isspace c"
    by (simp_all add: pystr_def py_isspace_def)
  have long: "int (length ?long) > max_input_chars_per_word ?wp1"
    by (simp add: WordpieceTokenizer_init_def)
  have m: "longest_match ?v ?t 0 (length ?t) = Some (2, pystr ''un'')"
    by (simp add: pystr_def substr_at_def py_slice_def numeral_3_eq_3)
  have reached: "cursor_reached (vocab ?wp2) ?t 2 ([] @ [pystr ''un''])"
    unfolding WordpieceTokenizer_init_def WordpieceTokenizer.simps
    by (rule cursor_reached.advance [OF cursor_reached.initial _ m]) (simp add: pystr_def)
  have inside: "2 < length ?t" by (simp add: pystr_def)
  have none: "\<forall>en. 2 < en \<and> en \<le> length ?t \<longrightarrow> vocab ?wp2 (substr_at ?t 2 en) = None"
  proof (intro allI impI)
    fix en assume "2 < en \<and> en \<le> length ?t"
    then have "en = 3" by (simp add: pystr_def)
    then show "vocab ?wp2 (substr_at ?t 2 en) = None"
      by (simp add: WordpieceTokenizer_init_def pystr_def substr_at_def py_slice_def)
  qed
  from wordpiece_unknown_fallback [OF tok1, of ?wp1] long
  have "tokenize ?wp1 ?long = [unk_token ?wp1]" by blast
  moreover from wordpiece_unknown_fallback [OF tok2, of ?wp2 2 "[] @ [pystr ''un'']"]
    reached inside none
  have "tokenize ?wp2 ?t = [unk_token ?wp2]" by blast
  ultimately show ?thesis by (simp add: WordpieceTokenizer_init_def)
qed



section \<open>Properties of the equation builders\<close>

lemma py_index_error: "py_index xs j = Inl e \<Longrightarrow> e = IndexError"
  by (auto simp: py_index_def Let_def split: if_splits)

lemma py_index_outside:
  "\<not> (- int (length xs) \<le> j \<and> j < int (length xs)) \<Longrightarrow> py_index xs j = Inl IndexError"
  by (auto simp: py_index_def Let_def)

lemma py_index_nonneg:
  "0 \<le> j \<Longrightarrow> j < int (length xs) \<Longrightarrow> py_index xs j = Inr (xs ! nat j)"
  by (simp add: py_index_def Let_def)

lemma free_loop_error:
  "\<exists>i\<in>set rest. \<not> (- int (length A) \<le> i + off \<and> i + off < int (length A)) \<Longrightarrow>
   free_loop A off rest st = Inl IndexError"
proof (induction rest arbitrary: st)
  case Nil
  then show ?case by simp
next
  case (Cons i rest)
  show ?case
  proof (cases "py_index A (i + off)")
    case (Inl e)
    then show ?thesis using py_index_error [OF Inl] by simp
  next
    case (Inr char)
    then have "- int (length A) \<le> i + off \<and> i + off < int (length A)"
      using py_index_outside [of A "i + off"] by auto
    with Cons.prems have "\<exists>i\<in>set rest. \<not> (- int (length A) \<le> i + off \<and> i + off < int (length A))"
      by auto
    from Cons.IH [OF this] Inr show ?thesis by simp
  qed
qed

lemma bound_loop_error:
  "\<exists>i\<in>set rest. \<not> (- int (length A) \<le> i + off \<and> i + off < int (length A)) \<Longrightarrow>
   bound_loop A off rest st = Inl IndexError"
proof (induction rest arbitrary: st)
  case Nil
  then show ?case by simp
next
  case (Cons i rest)
  show ?case
  proof (cases "py_index A (i + off)")
    case (Inl e)
    then show ?thesis using py_index_error [OF Inl] by simp
  next
    case (Inr char)
    then have "- int (length A) \<le> i + off \<and> i + off < int (length A)"
      using py_index_outside [of A "i + off"] by auto
    with Cons.prems have "\<exists>i\<in>set rest. \<not> (- int (length A) \<le> i + off \<and> i + off < int (length A))"
      by auto
    from Cons.IH [OF this] Inr show ?thesis by simp
  qed
qed

lemma output_loop_error:
  "\<exists>i\<in>set rest. \<not> (- int (length A) \<le> i + off \<and> i + off < int (length A)) \<Longrightarrow>
   output_loop A off rest st = Inl IndexError"
proof (induction rest arbitrary: st)
  case Nil
  then show ?case by simp
next
  case (Cons i rest)
  show ?case
  proof (cases "py_index A (i + off)")
    case (Inl e)
    then show ?thesis using py_index_error [OF Inl] by simp
  next
    case (Inr char)
    then have "- int (length A) \<le> i + off \<and> i + off < int (length A)"
      using py_index_outside [of A "i + off"] by auto
    with Cons.prems have "\<exists>i\<in>set rest. \<not> (- int (length A) \<le> i + off \<and> i + off < int (length A))"
      by auto
    from Cons.IH [OF this] Inr show ?thesis by simp
  qed
qed

lemma free_loop_result: "free_loop A off rest st = Inl e \<Longrightarrow> e = IndexError"
  by (induction rest arbitrary: st) (auto split: sum.splits dest: py_index_error)

lemma bound_loop_result: "bound_loop A off rest st = Inl e \<Longrightarrow> e = IndexError"
  by (induction rest arbitrary: st) (auto split: sum.splits dest: py_index_error)

lemma last_in_py_range: "0 < n \<Longrightarrow> n - 1 \<in> set (py_range n)"
proof -
  assume "0 < n"
  then have "nat n - 1 \<in> set [0..<nat n]" "int (nat n - 1) = n - 1" by auto
  then show ?thesis unfolding py_range_def by (metis image_eqI set_map)
qed

lemma build_strings_too_many:
  assumes "int (length A) < free_dims + bound_dims + output_dims"
  shows "build_strings A free_dims bound_dims output_dims = Inl IndexError"
proof (cases "free_loop A 0 (py_range free_dims)
    \<lparr>input_str = '''', kernel_str = '''', output_str = '''', bias_axes = ''''\<rparr>")
  case (Inl e)
  with free_loop_result [OF Inl] show ?thesis by (simp add: build_strings_def)
next
  case free: (Inr st1)
  have f: "free_dims \<le> int (length A)"
  proof (rule ccontr)
    assume "\<not> free_dims \<le> int (length A)"
    then have "0 < free_dims" "\<not> (free_dims - 1 + 0 < int (length A))" by auto
    with last_in_py_range [of free_dims]
    have "\<exists>i\<in>set (py_range free_dims). \<not> (- int (length A) \<le> i + 0 \<and> i + 0 < int (length A))"
      by blast
    from free_loop_error [OF this] free show False by simp
  qed
  show ?thesis
  proof (cases "bound_loop A free_dims (py_range bound_dims) st1")
    case (Inl e)
    with bound_loop_result [OF Inl] free show ?thesis by (simp add: build_strings_def)
  next
    case bound: (Inr st2)
    have b: "0 < bound_dims \<longrightarrow> free_dims + bound_dims \<le> int (length A)"
    proof (rule ccontr)
      assume "\<not> (0 < bound_dims \<longrightarrow> free_dims + bound_dims \<le> int (length A))"
      then have "0 < bound_dims" "\<not> (bound_dims - 1 + free_dims < int (length A))" by auto
      with last_in_py_range [of bound_dims]
      have "\<exists>i\<in>set (py_range bound_dims).
          \<not> (- int (length A) \<le> i + free_dims \<and> i + free_dims < int (length A))"
        by blast
      from bound_loop_error [OF this] bound show False by simp
    qed
    from assms f b have "0 < output_dims"
      "\<not> (output_dims - 1 + (free_dims + bound_dims) < int (length A))" by auto
    with last_in_py_range [of output_dims]
    have "\<exists>i\<in>set (py_range output_dims).
        \<not> (- int (length A) \<le> i + (free_dims + bound_dims)
           \<and> i + (free_dims + bound_dims) < int (length A))"
      by blast
    from output_loop_error [OF this] free bound show ?thesis
      by (simp add: build_strings_def)
  qed
qed

text \<open>
  Claim C4, as amended. When \<open>free_dims + bound_dims + output_dims\<close> exceeds the size of
  the alphabet (26 letters for \<open>_build_proj_equation\<close>, 13 for
  \<open>DenseEinsum._build_einsum_string\<close>), the builder raises Python's \<open>IndexError\<close>, from the
  lookup in the alphabet, and returns no equation; this holds for all integers, negative
  ones included.
\<close>

theorem equation_builders_too_many_dims:
  "(26 < free_dims + bound_dims + output_dims \<longrightarrow>
      build_proj_equation free_dims bound_dims output_dims = Inl IndexError) \<and>
   (13 < free_dims + bound_dims + output_dims \<longrightarrow>
      build_einsum_string free_dims bound_dims output_dims = Inl IndexError)"
  using build_strings_too_many [of ascii_lowercase free_dims bound_dims output_dims]
    build_strings_too_many [of "''abcdefghijklm''" free_dims bound_dims output_dims]
  by (simp add: build_proj_equation_def build_einsum_string_def ascii_lowercase_def)

theorem equation_builders_too_many_dims_witness:
  "build_proj_equation 20 5 2 = Inl IndexError \<and> build_einsum_string 10 3 1 = Inl IndexError"
  using equation_builders_too_many_dims [of 20 5 2] equation_builders_too_many_dims [of 10 3 1]
  by simp

text \<open>
  Claim C4 as stated fails in the kind of the error: with 27 dimensions (14 for
  \<open>DenseEinsum\<close>) the builder ends with the \<open>IndexError\<close> of the alphabet lookup. The code
  has no check of the number of dimensions and no configuration error class; the
  configuration checks that it does make raise \<open>ValueError\<close>, which is not raised here.
\<close>

theorem equation_builders_index_error_counterexample:
  "build_proj_equation 27 0 0 = Inl IndexError \<and> build_proj_equation 27 0 0 \<noteq> Inl ValueError \<and>
   build_einsum_string 14 0 0 = Inl IndexError \<and> build_einsum_string 14 0 0 \<noteq> Inl ValueError"
  using build_strings_too_many [of ascii_lowercase 27 0 0]
    build_strings_too_many [of "''abcdefghijklm''" 14 0 0]
  by (simp add: build_proj_equation_def build_einsum_string_def ascii_lowercase_def)

lemma free_loop_ok:
  "\<forall>i\<in>set rest. 0 \<le> i + off \<and> i + off < int (length A) \<Longrightarrow>
   free_loop A off rest st =
     Inr (st\<lparr>input_str := input_str st @ map (\<lambda>i. A ! nat (i + off)) rest,
             output_str := output_str st @ map (\<lambda>i. A ! nat (i + off)) rest\<rparr>)"
  by (induction rest arbitrary: st) (simp_all add: py_index_nonneg)

lemma bound_loop_ok:
  "\<forall>i\<in>set rest. 0 \<le> i + off \<and> i + off < int (length A) \<Longrightarrow>
   bound_loop A off rest st =
     Inr (st\<lparr>input_str := input_str st @ map (\<lambda>i. A ! nat (i + off)) rest,
             kernel_str := kernel_str st @ map (\<lambda>i. A ! nat (i + off)) rest\<rparr>)"
  by (induction rest arbitrary: st) (simp_all add: py_index_nonneg)

lemma output_loop_ok:
  "\<forall>i\<in>set rest. 0 \<le> i + off \<and> i + off < int (length A) \<Longrightarrow>
   output_loop A off rest st =
     Inr (st\<lparr>kernel_str := kernel_str st @ map (\<lambda>i. A ! nat (i + off)) rest,
             output_str := output_str st @ map (\<lambda>i. A ! nat (i + off)) rest,
             bias_axes := bias_axes st @ map (\<lambda>i. A ! nat (i + off)) rest\<rparr>)"
  by (induction rest arbitrary: st) (simp_all add: py_index_nonneg)

lemma block_symbols:
  assumes "k + m \<le> length A"
  shows "map (\<lambda>i. A ! nat (i + int k)) (py_range (int m)) = take m (drop k A)"
proof (rule nth_equalityI)
  show "length (map (\<lambda>i. A ! nat (i + int k)) (py_range (int m))) = length (take m (drop k A))"
    using assms by (simp add: py_range_def)
next
  fix i assume "i < length (map (\<lambda>i. A ! nat (i + int k)) (py_range (int m)))"
  then have i: "i < m" by (simp add: py_range_def)
  then have "nat (int i + int k) = k + i" by simp
  with i assms show "map (\<lambda>i. A ! nat (i + int k)) (py_range (int m)) ! i = take m (drop k A) ! i"
    by (simp add: py_range_def)
qed

lemma block_in_range:
  "k + m \<le> length A \<Longrightarrow> \<forall>i\<in>set (py_range (int m)). 0 \<le> i + int k \<and> i + int k < int (length A)"
  by (auto simp: py_range_def)

lemma build_strings_ok:
  assumes "f + b + o' \<le> length A"
  shows "build_strings A (int f) (int b) (int o') =
    Inr \<lparr>input_str = take f A @ take b (drop f A),
         kernel_str = take b (drop f A) @ take o' (drop (f + b) A),
         output_str = take f A @ take o' (drop (f + b) A),
         bias_axes = take o' (drop (f + b) A)\<rparr>"
proof -
  let ?st0 = "\<lparr>input_str = '''', kernel_str = '''', output_str = '''', bias_axes = ''''\<rparr>"
  from assms have r: "0 + f \<le> length A" "f + b \<le> length A" "(f + b) + o' \<le> length A"
    by simp_all
  have 1: "free_loop A 0 (py_range (int f)) ?st0
      = Inr (?st0\<lparr>input_str := take f A, output_str := take f A\<rparr>)"
    using free_loop_ok [OF block_in_range [OF r(1)], of ?st0] block_symbols [OF r(1)]
    by simp
  have 2: "bound_loop A (int f) (py_range (int b)) st
      = Inr (st\<lparr>input_str := input_str st @ take b (drop f A),
                kernel_str := kernel_str st @ take b (drop f A)\<rparr>)" for st
    using bound_loop_ok [OF block_in_range [OF r(2)], of st] block_symbols [OF r(2)]
    by simp
  have 3: "output_loop A (int f + int b) (py_range (int o')) st
      = Inr (st\<lparr>kernel_str := kernel_str st @ take o' (drop (f + b) A),
                output_str := output_str st @ take o' (drop (f + b) A),
                bias_axes := bias_axes st @ take o' (drop (f + b) A)\<rparr>)" for st
    using output_loop_ok [OF block_in_range [OF r(3)], of st] block_symbols [OF r(3)]
    by simp
  show ?thesis
    by (simp add: build_strings_def 1 2 3)
qed

lemma alphabet_increasing:
  "sorted_wrt (\<lambda>c d. (of_char c :: nat) < of_char d) ascii_lowercase"
  by (simp add: ascii_lowercase_def)

lemma short_alphabet: "''abcdefghijklm'' = take 13 ascii_lowercase"
  by (simp add: ascii_lowercase_def)

lemma increasing_distinct:
  "sorted_wrt (\<lambda>c d. (of_char c :: nat) < of_char d) xs \<Longrightarrow> distinct xs"
  by (induction xs) auto

lemma blocks_increasing:
  assumes "sorted_wrt (\<lambda>c d. (of_char c :: nat) < of_char d) A"
  shows "take f A @ take b (drop f A) @ take o' (drop (f + b) A) = take (f + b + o') A"
    and "sorted_wrt (\<lambda>c d. (of_char c :: nat) < of_char d)
      (take f A @ take b (drop f A) @ take o' (drop (f + b) A))"
    and "distinct (take f A @ take b (drop f A) @ take o' (drop (f + b) A))"
proof -
  show eq: "take f A @ take b (drop f A) @ take o' (drop (f + b) A) = take (f + b + o') A"
    by (simp only: take_add append_assoc)
  show s: "sorted_wrt (\<lambda>c d. (of_char c :: nat) < of_char d)
      (take f A @ take b (drop f A) @ take o' (drop (f + b) A))"
    unfolding eq using assms by (rule sorted_wrt_take)
  have "distinct (take (f + b + o') A)"
    using sorted_wrt_take [OF assms, of "f + b + o'"] by (rule increasing_distinct)
  then show "distinct (take f A @ take b (drop f A) @ take o' (drop (f + b) A))"
    unfolding eq .
qed


text \<open>
  Claim C3. For non-negative \<open>free_dims\<close>, \<open>bound_dims\<close> and \<open>output_dims\<close> whose sum is at
  most the size of the alphabet (on a larger sum the lookup in the alphabet raises
  \<open>IndexError\<close>), the builder returns the equation \<open>input,kernel->output\<close> with input =
  free symbols then bound symbols, kernel = bound symbols then output symbols, output =
  free symbols then output symbols. The three blocks are consecutive parts of the
  alphabet, free first, then bound, then output, so the symbols increase strictly; the
  output subscripts have length \<open>free_dims + output_dims\<close> (the rank returned by
  \<open>_build_proj_equation\<close>), and every kernel symbol is in exactly one of the input and the
  output subscripts.
\<close>

theorem equation_builders_subscripts:
  fixes free_dims bound_dims output_dims :: int
  assumes "0 \<le> free_dims" and "0 \<le> bound_dims" and "0 \<le> output_dims"
  shows "(free_dims + bound_dims + output_dims \<le> 26 \<longrightarrow>
      (let free = take (nat free_dims) ascii_lowercase;
           bound = take (nat bound_dims) (drop (nat free_dims) ascii_lowercase);
           out = take (nat output_dims) (drop (nat free_dims + nat bound_dims) ascii_lowercase)
       in build_proj_equation free_dims bound_dims output_dims =
            Inr ((free @ bound) @ '','' @ (bound @ out) @ ''->'' @ (free @ out), out,
                 free_dims + output_dims) \<and>
          length free = nat free_dims \<and> length bound = nat bound_dims \<and>
          length out = nat output_dims \<and>
          free @ bound @ out
            = take (nat free_dims + nat bound_dims + nat output_dims) ascii_lowercase \<and>
          sorted_wrt (\<lambda>c d. (of_char c :: nat) < of_char d) (free @ bound @ out) \<and>
          int (length (free @ out)) = free_dims + output_dims \<and>
          (\<forall>c\<in>set (bound @ out). (c \<in> set (free @ bound)) \<noteq> (c \<in> set (free @ out))))) \<and>
    (free_dims + bound_dims + output_dims \<le> 13 \<longrightarrow>
      (let free = take (nat free_dims) ''abcdefghijklm'';
           bound = take (nat bound_dims) (drop (nat free_dims) ''abcdefghijklm'');
           out = take (nat output_dims) (drop (nat free_dims + nat bound_dims) ''abcdefghijklm'')
       in build_einsum_string free_dims bound_dims output_dims =
            Inr ((free @ bound) @ '','' @ (bound @ out) @ ''->'' @ (free @ out)) \<and>
          length free = nat free_dims \<and> length bound = nat bound_dims \<and>
          length out = nat output_dims \<and>
          free @ bound @ out
            = take (nat free_dims + nat bound_dims + nat output_dims) ''abcdefghijklm'' \<and>
          sorted_wrt (\<lambda>c d. (of_char c :: nat) < of_char d) (free @ bound @ out) \<and>
          int (length (free @ out)) = free_dims + output_dims \<and>
          (\<forall>c\<in>set (bound @ out). (c \<in> set (free @ bound)) \<noteq> (c \<in> set (free @ out)))))"
proof -
  define f b o' where "f = nat free_dims" and "b = nat bound_dims" and "o' = nat output_dims"
  with assms have dims: "free_dims = int f" "bound_dims = int b" "output_dims = int o'"
    by simp_all
  have general: "build_strings A (int f) (int b) (int o') =
        Inr \<lparr>input_str = take f A @ take b (drop f A),
             kernel_str = take b (drop f A) @ take o' (drop (f + b) A),
             output_str = take f A @ take o' (drop (f + b) A),
             bias_axes = take o' (drop (f + b) A)\<rparr> \<and>
      length (take f A) = f \<and> length (take b (drop f A)) = b \<and>
      length (take o' (drop (f + b) A)) = o' \<and>
      take f A @ take b (drop f A) @ take o' (drop (f + b) A) = take (f + b + o') A \<and>
      sorted_wrt (\<lambda>c d. (of_char c :: nat) < of_char d)
        (take f A @ take b (drop f A) @ take o' (drop (f + b) A)) \<and>
      (\<forall>c\<in>set (take b (drop f A) @ take o' (drop (f + b) A)).
         (c \<in> set (take f A @ take b (drop f A)))
           \<noteq> (c \<in> set (take f A @ take o' (drop (f + b) A))))"
    if fits: "f + b + o' \<le> length A"
      and inc: "sorted_wrt (\<lambda>c d. (of_char c :: nat) < of_char d) A" for A
  proof -
    note blocks = blocks_increasing [OF inc, of f b o']
    from blocks(3) have "\<forall>c\<in>set (take b (drop f A) @ take o' (drop (f + b) A)).
         (c \<in> set (take f A @ take b (drop f A)))
           \<noteq> (c \<in> set (take f A @ take o' (drop (f + b) A)))"
      by auto
    moreover from fits have "length (take f A) = f" "length (take b (drop f A)) = b"
      "length (take o' (drop (f + b) A)) = o'"
      by simp_all
    ultimately show ?thesis
      using build_strings_ok [OF fits] blocks(1,2) by simp
  qed
  have inc13: "sorted_wrt (\<lambda>c d. (of_char c :: nat) < of_char d) ''abcdefghijklm''"
    unfolding short_alphabet using alphabet_increasing by (rule sorted_wrt_take)
  have len26: "length ascii_lowercase = 26"
    by (simp add: ascii_lowercase_def)
  have proj: "build_proj_equation (int f) (int b) (int o') =
        Inr ((take f ascii_lowercase @ take b (drop f ascii_lowercase)) @ '','' @
             (take b (drop f ascii_lowercase) @ take o' (drop (f + b) ascii_lowercase)) @ ''->'' @
             (take f ascii_lowercase @ take o' (drop (f + b) ascii_lowercase)),
             take o' (drop (f + b) ascii_lowercase), int f + int o')"
    if "f + b + o' \<le> 26"
  proof -
    from that have fits: "f + b + o' \<le> length ascii_lowercase" by (simp add: len26)
    then have "length (take f ascii_lowercase @ take o' (drop (f + b) ascii_lowercase)) = f + o'"
      by simp
    with build_strings_ok [OF fits] show ?thesis
      by (simp add: build_proj_equation_def)
  qed
  have einsum: "build_einsum_string (int f) (int b) (int o') =
        Inr ((take f ''abcdefghijklm'' @ take b (drop f ''abcdefghijklm'')) @ '','' @
             (take b (drop f ''abcdefghijklm'') @ take o' (drop (f + b) ''abcdefghijklm'')) @ ''->'' @
             (take f ''abcdefghijklm'' @ take o' (drop (f + b) ''abcdefghijklm'')))"
    if "f + b + o' \<le> 13"
  proof -
    from that have fits: "f + b + o' \<le> length ''abcdefghijklm''" by simp
    from build_strings_ok [OF fits] show ?thesis
      by (simp add: build_einsum_string_def)
  qed
  have first: "free_dims + bound_dims + output_dims \<le> 26 \<longrightarrow>
      (let free = take (nat free_dims) ascii_lowercase;
           bound = take (nat bound_dims) (drop (nat free_dims) ascii_lowercase);
           out = take (nat output_dims) (drop (nat free_dims + nat bound_dims) ascii_lowercase)
       in build_proj_equation free_dims bound_dims output_dims =
            Inr ((free @ bound) @ '','' @ (bound @ out) @ ''->'' @ (free @ out), out,
                 free_dims + output_dims) \<and>
          length free = nat free_dims \<and> length bound = nat bound_dims \<and>
          length out = nat output_dims \<and>
          free @ bound @ out
            = take (nat free_dims + nat bound_dims + nat output_dims) ascii_lowercase \<and>
          sorted_wrt (\<lambda>c d. (of_char c :: nat) < of_char d) (free @ bound @ out) \<and>
          int (length (free @ out)) = free_dims + output_dims \<and>
          (\<forall>c\<in>set (bound @ out). (c \<in> set (free @ bound)) \<noteq> (c \<in> set (free @ out))))"
  proof
    assume "free_dims + bound_dims + output_dims \<le> 26"
    then have le: "f + b + o' \<le> 26" unfolding dims by simp
    then have fits: "f + b + o' \<le> length ascii_lowercase" by (simp add: len26)
    from fits have "length (take f ascii_lowercase @ take o' (drop (f + b) ascii_lowercase)) = f + o'"
      by simp
    then have "int (length (take f ascii_lowercase @ take o' (drop (f + b) ascii_lowercase)))
        = int f + int o'"
      by (simp only: of_nat_add)
    with general [OF fits alphabet_increasing] proj [OF le]
    show "let free = take (nat free_dims) ascii_lowercase;
           bound = take (nat bound_dims) (drop (nat free_dims) ascii_lowercase);
           out = take (nat output_dims) (drop (nat free_dims + nat bound_dims) ascii_lowercase)
       in build_proj_equation free_dims bound_dims output_dims =
            Inr ((free @ bound) @ '','' @ (bound @ out) @ ''->'' @ (free @ out), out,
                 free_dims + output_dims) \<and>
          length free = nat free_dims \<and> length bound = nat bound_dims \<and>
          length out = nat output_dims \<and>
          free @ bound @ out
            = take (nat free_dims + nat bound_dims + nat output_dims) ascii_lowercase \<and>
          sorted_wrt (\<lambda>c d. (of_char c :: nat) < of_char d) (free @ bound @ out) \<and>
          int (length (free @ out)) = free_dims + output_dims \<and>
          (\<forall>c\<in>set (bound @ out). (c \<in> set (free @ bound)) \<noteq> (c \<in> set (free @ out)))"
      unfolding dims Let_def nat_int by blast
  qed
  have second: "free_dims + bound_dims + output_dims \<le> 13 \<longrightarrow>
      (let free = take (nat free_dims) ''abcdefghijklm'';
           bound = take (nat bound_dims) (drop (nat free_dims) ''abcdefghijklm'');
           out = take (nat output_dims) (drop (nat free_dims + nat bound_dims) ''abcdefghijklm'')
       in build_einsum_string free_dims bound_dims output_dims =
            Inr ((free @ bound) @ '','' @ (bound @ out) @ ''->'' @ (free @ out)) \<and>
          length free = nat free_dims \<and> length bound = nat bound_dims \<and>
          length out = nat output_dims \<and>
          free @ bound @ out
            = take (nat free_dims + nat bound_dims + nat output_dims) ''abcdefghijklm'' \<and>
          sorted_wrt (\<lambda>c d. (of_char c :: nat) < of_char d) (free @ bound @ out) \<and>
          int (length (free @ out)) = free_dims + output_dims \<and>
          (\<forall>c\<in>set (bound @ out). (c \<in> set (free @ bound)) \<noteq> (c \<in> set (free @ out))))"
  proof
    assume "free_dims + bound_dims + output_dims \<le> 13"
    then have le: "f + b + o' \<le> 13" unfolding dims by simp
    then have fits: "f + b + o' \<le> length ''abcdefghijklm''" by simp
    from fits have "length (take f ''abcdefghijklm'' @ take o' (drop (f + b) ''abcdefghijklm'')) = f + o'"
      by simp
    then have "int (length (take f ''abcdefghijklm'' @ take o' (drop (f + b) ''abcdefghijklm'')))
        = int f + int o'"
      by (simp only: of_nat_add)
    with general [OF fits inc13] einsum [OF le]
    show "let free = take (nat free_dims) ''abcdefghijklm'';
           bound = take (nat bound_dims) (drop (nat free_dims) ''abcdefghijklm'');
           out = take (nat output_dims) (drop (nat free_dims + nat bound_dims) ''abcdefghijklm'')
       in build_einsum_string free_dims bound_dims output_dims =
            Inr ((free @ bound) @ '','' @ (bound @ out) @ ''->'' @ (free @ out)) \<and>
          length free = nat free_dims \<and> length bound = nat bound_dims \<and>
          length out = nat output_dims \<and>
          free @ bound @ out
            = take (nat free_dims + nat bound_dims + nat output_dims) ''abcdefghijklm'' \<and>
          sorted_wrt (\<lambda>c d. (of_char c :: nat) < of_char d) (free @ bound @ out) \<and>
          int (length (free @ out)) = free_dims + output_dims \<and>
          (\<forall>c\<in>set (bound @ out). (c \<in> set (free @ bound)) \<noteq> (c \<in> set (free @ out)))"
      unfolding dims Let_def nat_int by blast
  qed
  from first second show ?thesis by (rule conjI)
qed

theorem equation_builders_subscripts_witness:
  "build_proj_equation 2 1 2 = Inr (''abc,cde->abde'', ''de'', 4) \<and>
   build_einsum_string 2 1 1 = Inr ''abc,cd->abd''"
proof -
  have "(0::int) \<le> 2" "(0::int) \<le> 1" by simp_all
  from equation_builders_subscripts [OF this(1) this(2) this(1)]
    equation_builders_subscripts [OF this(1) this(2) this(2)]
  show ?thesis
    by (simp add: ascii_lowercase_def Let_def)
qed

section \<open>Properties of the BERT tokenization layer\<close>

lemma wordpiece_loop_empty: "wordpiece_loop v [] 0 [] = Some []"
  by (simp add: wordpiece_loop.simps)

lemma wordpiece_token_known:
  assumes "s \<in> set (wordpiece_token wp token)"
  shows "vocab wp s \<noteq> None \<or> s = unk_token wp"
proof (cases "int (length token) > max_input_chars_per_word wp")
  case True
  with assms show ?thesis by (simp add: wordpiece_token_def)
next
  case short: False
  show ?thesis
  proof (cases "wordpiece_loop (vocab wp) token 0 []")
    case None
    with assms short show ?thesis by (simp add: wordpiece_token_def)
  next
    case (Some subs)
    with assms short have s: "s \<in> set subs" by (simp add: wordpiece_token_def)
    show ?thesis
    proof (cases "token = []")
      case True
      with Some s show ?thesis by (simp add: wordpiece_loop_empty)
    next
      case False
      from wordpiece_loop_from_0 [OF Some False] s show ?thesis by auto
    qed
  qed
qed

lemma foldl_extend: "foldl (\<lambda>out x. out @ f x) acc xs = acc @ concat (map f xs)"
  by (induction xs arbitrary: acc) simp_all

lemma foldl_append_each: "foldl (\<lambda>out x. out @ [x]) acc xs = acc @ xs"
  by (induction xs arbitrary: acc) simp_all

lemma tokenize_concat:
  "tokenize wp text = concat (map (wordpiece_token wp) (whitespace_tokenize text))"
  by (simp add: tokenize_def convert_to_unicode_def foldl_extend)

lemma tokenize_known:
  "s \<in> set (tokenize wp text) \<Longrightarrow> vocab wp s \<noteq> None \<or> s = unk_token wp"
  by (auto simp: tokenize_concat dest: wordpiece_token_known)

lemma full_tokenize_concat:
  "full_tokenize ucd ft text =
     concat (map (tokenize (wordpiece_tokenizer ft)) (basic_tokenize ucd (basic_tokenizer ft) text))"
  by (simp add: full_tokenize_def foldl_append_each foldl_extend)

lemma full_tokenize_known:
  assumes "s \<in> set (full_tokenize ucd (FullTokenizer_init vocab_file lc punc) text)"
  shows "load_vocab vocab_file s \<noteq> None \<or> s = pystr ''[UNK]''"
proof -
  from assms obtain token where
    "s \<in> set (tokenize (WordpieceTokenizer_init (load_vocab vocab_file)) token)"
    by (auto simp: full_tokenize_concat FullTokenizer_init_def Let_def)
  from tokenize_known [OF this] show ?thesis
    by (simp add: WordpieceTokenizer_init_def)
qed

lemma convert_by_vocab_acc:
  "foldl (\<lambda>output item.
              case output of Inl e \<Rightarrow> Inl e
              | Inr out \<Rightarrow> (case v item of None \<Rightarrow> Inl KeyError | Some x \<Rightarrow> Inr (out @ [x])))
           (Inr acc) items = Inr (acc @ map (\<lambda>item. the (v item)) items)"
  if "\<forall>item\<in>set items. v item \<noteq> None"
  using that by (induction items arbitrary: acc) auto

lemma convert_by_vocab_known:
  "\<forall>item\<in>set items. v item \<noteq> None \<Longrightarrow>
   convert_by_vocab v items = Inr (map (\<lambda>item. the (v item)) items)"
  using convert_by_vocab_acc [of items v "[]"] by (simp add: convert_by_vocab_def)

lemma width_bound: "r \<in> set rows \<Longrightarrow> length r \<le> foldr max (map length rows) 0"
  by (induction rows) auto

lemma to_tensor_nth:
  "i < length rows \<Longrightarrow>
   to_tensor rows ! i = rows ! i @ replicate (foldr max (map length rows) 0 - length (rows ! i)) 0"
  by (simp add: to_tensor_def Let_def)

lemma to_tensor_length: "length (to_tensor rows) = length rows"
  by (simp add: to_tensor_def Let_def)

lemma to_tensor_last_dim:
  "rows \<noteq> [] \<Longrightarrow> last_dim (to_tensor rows) = foldr max (map length rows) 0"
proof -
  assume "rows \<noteq> []"
  then obtain r rest where rows: "rows = r # rest" by (cases rows) auto
  have "length r \<le> foldr max (map length rows) 0" by (rule width_bound) (simp add: rows)
  then show ?thesis by (simp add: to_tensor_def last_dim_def rows Let_def)
qed

lemma encode_sentence_ok:
  assumes unk: "load_vocab vocab_file (pystr ''[UNK]'') = Some unk"
    and sep: "load_vocab vocab_file (pystr ''[SEP]'') = Some sep"
  shows "\<exists>ids. convert_tokens_to_ids (tokenizer (BertTokenizer_init vocab_file N))
        (full_tokenize ucd (tokenizer (BertTokenizer_init vocab_file N)) s) = Inr ids \<and>
      length ids = length (full_tokenize ucd (tokenizer (BertTokenizer_init vocab_file N)) s) \<and>
      encode_sentence ucd (BertTokenizer_init vocab_file N) s = Inr (ids @ [sep])"
proof -
  let ?ft = "FullTokenizer_init vocab_file True True"
  let ?v = "load_vocab vocab_file"
  let ?toks = "full_tokenize ucd ?ft s"
  have ft: "tokenizer (BertTokenizer_init vocab_file N) = ?ft"
    by (simp add: BertTokenizer_init_def)
  have v: "full_vocab ?ft = ?v"
    by (simp add: FullTokenizer_init_def Let_def)
  have known: "\<forall>item\<in>set ?toks. ?v item \<noteq> None"
    using full_tokenize_known [of _ ucd vocab_file True True s] unk by auto
  then have known': "\<forall>item\<in>set (?toks @ [pystr ''[SEP]'']). ?v item \<noteq> None"
    using sep by simp
  have "convert_tokens_to_ids ?ft ?toks = Inr (map (\<lambda>item. the (?v item)) ?toks)"
    unfolding convert_tokens_to_ids_def v by (rule convert_by_vocab_known [OF known])
  moreover have "convert_tokens_to_ids ?ft (?toks @ [pystr ''[SEP]''])
      = Inr (map (\<lambda>item. the (?v item)) ?toks @ [sep])"
    unfolding convert_tokens_to_ids_def v convert_by_vocab_known [OF known']
    using sep by simp
  ultimately show ?thesis
    unfolding ft by (simp add: encode_sentence_def ft Let_def)
qed

lemma get_encoded_sentence_ok:
  assumes "\<forall>s\<in>set sentences. \<exists>row. encode_sentence ucd layer s = Inr row"
  shows "\<exists>rows. get_encoded_sentence ucd layer (map (\<lambda>s. [s]) sentences) = Inr rows \<and>
      length rows = length sentences \<and>
      (\<forall>i<length sentences. encode_sentence ucd layer (sentences ! i) = Inr (rows ! i))"
  using assms
proof (induction sentences)
  case Nil
  then show ?case by simp
next
  case (Cons s sentences)
  from Cons.prems obtain row where row: "encode_sentence ucd layer s = Inr row" by auto
  from Cons obtain rows where rows:
    "get_encoded_sentence ucd layer (map (\<lambda>s. [s]) sentences) = Inr rows"
    "length rows = length sentences"
    "\<forall>i<length sentences. encode_sentence ucd layer (sentences ! i) = Inr (rows ! i)"
    by auto
  have "\<forall>i<length (s # sentences).
      encode_sentence ucd layer ((s # sentences) ! i) = Inr ((row # rows) ! i)"
    using row rows(3) by (auto simp: nth_Cons split: nat.splits)
  with row rows show ?case
    by (simp add: py_index_def)
qed

lemma prepend_cls:
  "map2 (@) (replicate (length rows) [c]) rows = map ((#) c) rows"
  by (induction rows) simp_all

lemma truncated_rows:
  assumes N: "0 \<le> N" and i: "i < length rows"
  defines "width \<equiv> foldr max (map length rows) 0"
  defines "out \<equiv> (if int (last_dim (to_tensor rows)) > N
      then map (\<lambda>row. py_prefix row N) (to_tensor rows) else to_tensor rows)"
  shows "out ! i = take (nat N) (rows ! i @ replicate (width - length (rows ! i)) 0)"
    and "N < int (length (rows ! i)) \<Longrightarrow> out ! i = take (nat N) (rows ! i)"
    and "N < int (length (rows ! i)) \<Longrightarrow> int (length (out ! i)) = N"
proof -
  from i have ne: "rows \<noteq> []" by auto
  have ld: "last_dim (to_tensor rows) = width"
    unfolding width_def by (rule to_tensor_last_dim [OF ne])
  have le: "length (rows ! i) \<le> width"
    unfolding width_def using i by (intro width_bound) simp
  have pad: "to_tensor rows ! i = rows ! i @ replicate (width - length (rows ! i)) 0"
    unfolding width_def by (rule to_tensor_nth [OF i])
  show 1: "out ! i = take (nat N) (rows ! i @ replicate (width - length (rows ! i)) 0)"
  proof (cases "int width > N")
    case True
    then show ?thesis
      using N i pad by (simp add: out_def ld py_prefix_def to_tensor_length)
  next
    case False
    then have "width \<le> nat N" by simp
    with le have "take (nat N) (rows ! i @ replicate (width - length (rows ! i)) 0)
        = rows ! i @ replicate (width - length (rows ! i)) 0"
      by simp
    with False pad show ?thesis by (simp add: out_def ld)
  qed
  assume "N < int (length (rows ! i))"
  then have "nat N \<le> length (rows ! i)" using N by simp
  then show "out ! i = take (nat N) (rows ! i)" "int (length (out ! i)) = N"
    unfolding 1 using N by simp_all
qed

lemma width_Max: "xs \<noteq> [] \<Longrightarrow> foldr max xs (0::nat) = Max (set xs)"
proof (induction xs)
  case Nil
  then show ?case by simp
next
  case (Cons x xs)
  show ?case
  proof (cases "xs = []")
    case True
    then show ?thesis by simp
  next
    case False
    with Cons.IH have "foldr max xs 0 = Max (set xs)" by simp
    with False show ?thesis by simp
  qed
qed

text \<open>
  Claim C8, as amended. With a vocabulary that has the unknown, class and separator
  tokens, a maximum sequence length \<open>N \<ge> 0\<close> and a batch of at least one sentence,
  \<open>bert_encode\<close> returns one row for each sentence. With \<open>W\<close> the greatest number of
  sub-words plus 2 among the sentences of the batch, the row of a sentence is the first
  \<open>N\<close> elements of: the class id, the ids of its sub-words, the separator id, and as many
  zeros as its number of sub-words plus 2 is below \<open>W\<close>; every row has the length
  \<open>min N W\<close>. When the number of sub-words plus 2 exceeds \<open>N\<close>, the row is the first \<open>N\<close>
  elements of class id, sub-word ids, separator id, and its length is exactly \<open>N\<close>; the
  same holds without the zeros for a longest sentence of the batch.
\<close>

theorem bert_encode_truncates:
  assumes "load_vocab vocab_file (pystr ''[UNK]'') = Some unk"
    and "load_vocab vocab_file (pystr ''[CLS]'') = Some cls"
    and "load_vocab vocab_file (pystr ''[SEP]'') = Some sep"
    and "0 \<le> N"
    and "sentences \<noteq> []"
    and "W = Max ((\<lambda>s. length (full_tokenize ucd (tokenizer (BertTokenizer_init vocab_file N)) s) + 2)
        ` set sentences)"
  shows "\<exists>rows. bert_encode ucd (BertTokenizer_init vocab_file N) (map (\<lambda>s. [s]) sentences) = Inr rows \<and>
    length rows = length sentences \<and>
    (\<forall>i<length sentences. \<exists>ids.
       convert_tokens_to_ids (tokenizer (BertTokenizer_init vocab_file N))
         (full_tokenize ucd (tokenizer (BertTokenizer_init vocab_file N)) (sentences ! i)) = Inr ids \<and>
       length ids = length (full_tokenize ucd (tokenizer (BertTokenizer_init vocab_file N)) (sentences ! i)) \<and>
       rows ! i = take (nat N) ((cls # ids @ [sep]) @ replicate (W - (length ids + 2)) 0) \<and>
       length (rows ! i) = min (nat N) W \<and>
       (N < int (length ids + 2) \<longrightarrow>
          rows ! i = take (nat N) (cls # ids @ [sep]) \<and> int (length (rows ! i)) = N) \<and>
       (length ids + 2 = W \<longrightarrow> rows ! i = take (nat N) (cls # ids @ [sep])))"
proof -
  let ?layer = "BertTokenizer_init vocab_file N"
  let ?ft = "tokenizer ?layer"
  have enc: "\<exists>ids. convert_tokens_to_ids ?ft (full_tokenize ucd ?ft s) = Inr ids \<and>
      length ids = length (full_tokenize ucd ?ft s) \<and>
      encode_sentence ucd ?layer s = Inr (ids @ [sep])" for s
    by (rule encode_sentence_ok [OF assms(1) assms(3)])
  then have "\<forall>s\<in>set sentences. \<exists>row. encode_sentence ucd ?layer s = Inr row"
    by blast
  from get_encoded_sentence_ok [OF this] obtain sentence where sentence:
    "get_encoded_sentence ucd ?layer (map (\<lambda>s. [s]) sentences) = Inr sentence"
    "length sentence = length sentences"
    "\<forall>i<length sentences. encode_sentence ucd ?layer (sentences ! i) = Inr (sentence ! i)"
    by blast
  from sentence(2) assms(5) have ne: "sentence \<noteq> []" by auto
  have cls: "convert_tokens_to_ids ?ft [pystr ''[CLS]''] = Inr [cls]"
    using assms(2)
    by (simp add: convert_tokens_to_ids_def convert_by_vocab_def BertTokenizer_init_def
        FullTokenizer_init_def Let_def)
  let ?rows = "map ((#) cls) sentence"
  let ?out = "(if int (last_dim (to_tensor ?rows)) > N
      then map (\<lambda>row. py_prefix row N) (to_tensor ?rows) else to_tensor ?rows)"
  have msl: "max_sequence_length ?layer = N"
    by (simp add: BertTokenizer_init_def)
  have result: "bert_encode ucd ?layer (map (\<lambda>s. [s]) sentences) = Inr ?out"
    using ne by (simp add: bert_encode_def sentence(1) cls prepend_cls Let_def msl)
  have len: "length ?out = length sentences"
    by (simp add: to_tensor_length sentence(2))
  have row_len: "length (sentence ! i) = Suc (length (full_tokenize ucd ?ft (sentences ! i)))"
    if i: "i < length sentences" for i
  proof -
    from enc [of "sentences ! i"] obtain ids where
      "length ids = length (full_tokenize ucd ?ft (sentences ! i))"
      "encode_sentence ucd ?layer (sentences ! i) = Inr (ids @ [sep])"
      by blast
    with sentence(3) i show ?thesis by simp
  qed
  have "map length ?rows = map (\<lambda>s. length (full_tokenize ucd ?ft s) + 2) sentences"
    by (rule nth_equalityI) (simp_all add: sentence(2) row_len)
  then have "set (map length ?rows) = (\<lambda>s. length (full_tokenize ucd ?ft s) + 2) ` set sentences"
    by simp
  moreover have "foldr max (map length ?rows) 0 = Max (set (map length ?rows))"
    using ne by (intro width_Max) simp
  ultimately have width: "foldr max (map length ?rows) 0 = W"
    using assms(6) by simp
  have each: "\<exists>ids.
       convert_tokens_to_ids ?ft (full_tokenize ucd ?ft (sentences ! i)) = Inr ids \<and>
       length ids = length (full_tokenize ucd ?ft (sentences ! i)) \<and>
       ?out ! i = take (nat N) ((cls # ids @ [sep]) @ replicate (W - (length ids + 2)) 0) \<and>
       length (?out ! i) = min (nat N) W \<and>
       (N < int (length ids + 2) \<longrightarrow>
          ?out ! i = take (nat N) (cls # ids @ [sep]) \<and> int (length (?out ! i)) = N) \<and>
       (length ids + 2 = W \<longrightarrow> ?out ! i = take (nat N) (cls # ids @ [sep]))"
    if i: "i < length sentences" for i
  proof -
    from enc [of "sentences ! i"] obtain ids where ids:
      "convert_tokens_to_ids ?ft (full_tokenize ucd ?ft (sentences ! i)) = Inr ids"
      "length ids = length (full_tokenize ucd ?ft (sentences ! i))"
      "encode_sentence ucd ?layer (sentences ! i) = Inr (ids @ [sep])"
      by blast
    from sentence(3) i ids(3) have si: "sentence ! i = ids @ [sep]" by simp
    from i sentence(2) have i': "i < length ?rows" by simp
    from i sentence(2) si have row: "?rows ! i = cls # ids @ [sep]" by simp
    note tr = truncated_rows [OF assms(4) i', unfolded row width]
    from i' have "?rows ! i \<in> set ?rows" by (rule nth_mem)
    from width_bound [OF this] have le: "length ids + 2 \<le> W"
      unfolding row width by simp
    have 1: "?out ! i = take (nat N) ((cls # ids @ [sep]) @ replicate (W - (length ids + 2)) 0)"
      using tr(1) by simp
    have 2: "length (?out ! i) = min (nat N) W"
      unfolding 1 using le by simp
    have 3: "N < int (length ids + 2) \<longrightarrow>
          ?out ! i = take (nat N) (cls # ids @ [sep]) \<and> int (length (?out ! i)) = N"
      using tr(2,3) by simp
    have 4: "length ids + 2 = W \<longrightarrow> ?out ! i = take (nat N) (cls # ids @ [sep])"
      using 1 by simp
    from ids(1,2) 1 2 3 4 show ?thesis by blast
  qed
  from result len each show ?thesis by blast
qed

lemma tiny_vocab:
  "load_vocab tiny_vocab_file =
     [[91, 85, 78, 75, 93] \<mapsto> 0, [91, 67, 76, 83, 93] \<mapsto> 1, [91, 83, 69, 80, 93] \<mapsto> 2,
      [97] \<mapsto> 3, [98] \<mapsto> 4]"
proof -
  have n: "Suc (Suc 0) = 2" "Suc (Suc (Suc 0)) = 3" "Suc (Suc (Suc (Suc 0))) = 4"
    by simp_all
  show ?thesis
    by (simp add: tiny_vocab_file_def load_vocab_def pystr_def py_strip_def py_isspace_def
        convert_to_unicode_def n)
qed

lemma basic_a_b:
  "basic_tokenize ascii_unicodedata \<lparr>do_lower_case = True, split_on_punc = True\<rparr> [65, 32, 98]
     = [[97], [98]]"
  by (simp add: basic_tokenize_def convert_to_unicode_def is_control_def is_whitespace_def
      is_punctuation_def is_chinese_char_def ascii_unicodedata_def ascii_category_def
      whitespace_tokenize_def py_strip_def py_split_def py_isspace_def run_strip_accents_def
      run_split_on_punc_def Let_def)

lemma basic_a:
  "basic_tokenize ascii_unicodedata \<lparr>do_lower_case = True, split_on_punc = True\<rparr> [97]
     = [[97]]"
  by (simp add: basic_tokenize_def convert_to_unicode_def is_control_def is_whitespace_def
      is_punctuation_def is_chinese_char_def ascii_unicodedata_def ascii_category_def
      whitespace_tokenize_def py_strip_def py_split_def py_isspace_def run_strip_accents_def
      run_split_on_punc_def Let_def)

lemma wordpiece_letter:
  "v [c] \<noteq> None \<Longrightarrow> \<not> py_isspace c \<Longrightarrow> tokenize (WordpieceTokenizer_init v) [c] = [[c]]"
  by (simp add: tokenize_token wordpiece_token_def WordpieceTokenizer_init_def
      wordpiece_loop.simps [of _ _ 0] wordpiece_loop.simps [of _ _ "Suc 0"]
      substr_at_def py_slice_def)

lemma full_a_b:
  "full_tokenize ascii_unicodedata (FullTokenizer_init tiny_vocab_file True True) [65, 32, 98]
     = [[97], [98]]"
  by (simp add: full_tokenize_concat FullTokenizer_init_def Let_def basic_a_b tiny_vocab
      wordpiece_letter py_isspace_def)

lemma full_a:
  "full_tokenize ascii_unicodedata (FullTokenizer_init tiny_vocab_file True True) [97] = [[97]]"
  by (simp add: full_tokenize_concat FullTokenizer_init_def Let_def basic_a tiny_vocab
      wordpiece_letter py_isspace_def)

lemma ids_a_b:
  "convert_tokens_to_ids (FullTokenizer_init tiny_vocab_file True True) [[97], [98]] = Inr [3, 4]"
  by (simp add: convert_tokens_to_ids_def convert_by_vocab_def FullTokenizer_init_def Let_def
      tiny_vocab)

lemma tiny_tokenizer:
  "tokenizer (BertTokenizer_init tiny_vocab_file N) = FullTokenizer_init tiny_vocab_file True True"
  by (simp add: BertTokenizer_init_def)

lemma encode_a_b:
  "encode_sentence ascii_unicodedata (BertTokenizer_init tiny_vocab_file N) [65, 32, 98]
     = Inr [3, 4, 2]"
  unfolding encode_sentence_def tiny_tokenizer full_a_b
  by (simp add: pystr_def convert_tokens_to_ids_def convert_by_vocab_def FullTokenizer_init_def
      Let_def tiny_vocab)

lemma encode_a:
  "encode_sentence ascii_unicodedata (BertTokenizer_init tiny_vocab_file N) [97] = Inr [3, 2]"
  unfolding encode_sentence_def tiny_tokenizer full_a
  by (simp add: pystr_def convert_tokens_to_ids_def convert_by_vocab_def FullTokenizer_init_def
      Let_def tiny_vocab)

lemma full_a_b_length:
  "length (full_tokenize ascii_unicodedata (tokenizer (BertTokenizer_init tiny_vocab_file N))
     (pystr ''A b'')) = 2"
  unfolding tiny_tokenizer by (simp add: pystr_def full_a_b)

lemma full_a_length:
  "length (full_tokenize ascii_unicodedata (tokenizer (BertTokenizer_init tiny_vocab_file N))
     (pystr ''a'')) = 1"
  unfolding tiny_tokenizer by (simp add: pystr_def full_a)

lemma ids_of_a_b:
  "convert_tokens_to_ids (tokenizer (BertTokenizer_init tiny_vocab_file N))
     (full_tokenize ascii_unicodedata (tokenizer (BertTokenizer_init tiny_vocab_file N))
        (pystr ''A b'')) = Inr [3, 4]"
proof -
  have s: "pystr ''A b'' = [65, 32, 98]" by (simp add: pystr_def)
  show ?thesis unfolding tiny_tokenizer s full_a_b by (rule ids_a_b)
qed

lemma ids_of_a:
  "convert_tokens_to_ids (tokenizer (BertTokenizer_init tiny_vocab_file N))
     (full_tokenize ascii_unicodedata (tokenizer (BertTokenizer_init tiny_vocab_file N))
        (pystr ''a'')) = Inr [3]"
proof -
  have s: "pystr ''a'' = [97]" by (simp add: pystr_def)
  show ?thesis
    unfolding tiny_tokenizer s full_a
    by (simp add: convert_tokens_to_ids_def convert_by_vocab_def FullTokenizer_init_def Let_def
        tiny_vocab)
qed

lemma bert_encode_two_rows:
  "bert_encode ascii_unicodedata (BertTokenizer_init tiny_vocab_file 8)
     [[pystr ''A b''], [pystr ''a'']] = Inr [[1, 3, 4, 2], [1, 3, 2, 0]]"
proof -
  have s: "pystr ''A b'' = [65, 32, 98]" "pystr ''a'' = [97]" by (simp_all add: pystr_def)
  have cls: "convert_tokens_to_ids (tokenizer (BertTokenizer_init tiny_vocab_file 8)) [pystr ''[CLS]'']
      = Inr [1]"
    by (simp add: convert_tokens_to_ids_def convert_by_vocab_def BertTokenizer_init_def
        FullTokenizer_init_def Let_def tiny_vocab pystr_def)
  have msl: "max_sequence_length (BertTokenizer_init tiny_vocab_file 8) = 8"
    by (simp add: BertTokenizer_init_def)
  show ?thesis
    unfolding s
    by (simp add: bert_encode_def py_index_def encode_a_b encode_a cls msl to_tensor_def
        last_dim_def Let_def)
qed

theorem bert_encode_truncates_witness:
  "bert_encode ascii_unicodedata (BertTokenizer_init tiny_vocab_file 3)
     [[pystr ''A b''], [pystr ''a'']] = Inr [[1, 3, 4], [1, 3, 2]]"
proof -
  let ?layer = "BertTokenizer_init tiny_vocab_file 3"
  let ?sentences = "[pystr ''A b'', pystr ''a'']"
  have v: "load_vocab tiny_vocab_file (pystr ''[UNK]'') = Some 0"
    "load_vocab tiny_vocab_file (pystr ''[CLS]'') = Some 1"
    "load_vocab tiny_vocab_file (pystr ''[SEP]'') = Some 2"
    by (simp_all add: tiny_vocab pystr_def)
  have W: "Max ((\<lambda>s. length (full_tokenize ascii_unicodedata (tokenizer ?layer) s) + 2)
      ` set ?sentences) = 4"
    by (simp add: full_a_b_length full_a_length)
  have "(0::int) \<le> 3" "?sentences \<noteq> []" by simp_all
  from bert_encode_truncates [OF v this refl, of ascii_unicodedata, unfolded W]
  obtain rows where r:
    "bert_encode ascii_unicodedata ?layer (map (\<lambda>s. [s]) ?sentences) = Inr rows"
    "length rows = length ?sentences"
    and each: "\<And>i. i < length ?sentences \<Longrightarrow> \<exists>ids.
       convert_tokens_to_ids (tokenizer ?layer)
         (full_tokenize ascii_unicodedata (tokenizer ?layer) (?sentences ! i)) = Inr ids \<and>
       rows ! i = take (nat 3) ((1 # ids @ [2]) @ replicate (4 - (length ids + 2)) 0)"
    by blast
  from each [of 0] have "rows ! 0 = [1, 3, 4]"
    by (auto simp: ids_of_a_b numeral_3_eq_3)
  moreover from each [of 1] have "rows ! 1 = [1, 3, 2]"
    by (auto simp: ids_of_a numeral_3_eq_3)
  ultimately have "rows = [[1, 3, 4], [1, 3, 2]]"
    using r(2) by (cases rows; cases "tl rows") auto
  with r(1) show ?thesis by simp
qed

text \<open>
  Claim C8 as stated, for every sentence of a batch, fails for a sentence that is not a
  longest one: in the batch of the sentences \<open>A b\<close> and \<open>a\<close> with the maximum length 8, the
  ids of \<open>a\<close> are \<open>[3]\<close>, and its row is \<open>[CLS] a [SEP]\<close> followed by one 0, not
  \<open>[CLS] a [SEP]\<close>.
\<close>

theorem bert_encode_pads_counterexample:
  "bert_encode ascii_unicodedata (BertTokenizer_init tiny_vocab_file 8)
     [[pystr ''A b''], [pystr ''a'']] = Inr [[1, 3, 4, 2], [1, 3, 2, 0]] \<and>
   convert_tokens_to_ids (tokenizer (BertTokenizer_init tiny_vocab_file 8))
     (full_tokenize ascii_unicodedata (tokenizer (BertTokenizer_init tiny_vocab_file 8))
        (pystr ''a'')) = Inr [3] \<and>
   [[1, 3, 4, 2], [1, 3, 2, 0]] ! 1 \<noteq> take (nat 8) (1 # [3] @ [2::nat])"
  by (simp add: bert_encode_two_rows ids_of_a)

text \<open>
  For a batch without rows the call raises \<open>AttributeError\<close>.
\<close>

lemma bert_encode_empty_batch:
  "bert_encode ascii_unicodedata (BertTokenizer_init tiny_vocab_file 8) [] = Inl AttributeError"
  by (simp add: bert_encode_def convert_tokens_to_ids_def
      convert_by_vocab_def BertTokenizer_init_def FullTokenizer_init_def Let_def tiny_vocab
      pystr_def)

text \<open>
  Claim C1 fails on the code: \<open>BertTokenizer.call\<close> returns \<open>zeros_like(input_word_ids)\<close> as
  the mask. For the batch of the sentences \<open>A b\<close> and \<open>a\<close> the ids are
  \<open>[CLS] a b [SEP]\<close> and \<open>[CLS] a [SEP]\<close> with one padding 0, and the mask is 0 at
  all eight positions, the seven real ones included.
\<close>

theorem BertTokenizer_call_mask_all_zero:
  "BertTokenizer_call ascii_unicodedata (BertTokenizer_init tiny_vocab_file 8)
     [[pystr ''A b''], [pystr ''a'']]
   = Inr ([[1, 3, 4, 2], [1, 3, 2, 0]], [[0, 0, 0, 0], [0, 0, 0, 0]], [[0, 0, 0, 0], [0, 0, 0, 0]])"
  by (simp add: BertTokenizer_call_def zeros_like_def bert_encode_two_rows)

section \<open>Properties of the embedding lookup\<close>

lemma length_concat_uniform:
  "\<forall>row\<in>set rows. length row = w \<Longrightarrow> length (concat rows) = length rows * w"
  by (induction rows) simp_all

lemma fmul_zero_one_hot:
  "is_zero (fmul rnd (Finite 0) (Finite r))"
  by (simp add: fmul_def is_zero_def is_inf_def)

lemma fmul_one_kept:
  "kept_by rnd x \<Longrightarrow> fmul rnd (Finite 1) x = x"
  by (cases x) (auto simp: kept_by_def fmul_def is_zero_def is_inf_def)

lemma fadd_zero_kept:
  assumes "kept_by rnd x" "is_zero z"
  shows "fadd rnd x z = x"
  using assms by (cases x) (auto simp: kept_by_def fadd_def is_zero_def is_inf_def)

lemma fadd_zero_left_kept:
  assumes "kept_by rnd x"
  shows "fadd rnd (Finite 0) x = x"
  using assms by (cases x) (auto simp: kept_by_def fadd_def is_zero_def is_inf_def)

lemma foldl_zeros_kept:
  assumes "kept_by rnd x" "\<forall>z\<in>set zs. is_zero z"
  shows "foldl (fadd rnd) x zs = x"
  using assms by (induction zs) (simp_all add: fadd_zero_kept)

lemma one_hot_dot:
  assumes i: "0 \<le> i" "i < int n"
    and kept: "\<forall>k<n. kept_by rnd (f k)"
  shows "foldl (fadd rnd) (Finite 0)
      (map (\<lambda>k. fmul rnd (if int k = i then Finite 1 else Finite 0) (f k)) [0..<n]) = f (nat i)"
proof -
  let ?g = "\<lambda>k. fmul rnd (if int k = i then Finite 1 else Finite 0) (f k)"
  let ?m = "nat i"
  from i have m: "?m < n" by simp
  have zero: "is_zero (?g k)" if "k < n" "k \<noteq> ?m" for k
  proof -
    from kept that(1) obtain r where "f k = Finite r"
      by (cases "f k") (auto simp: kept_by_def)
    moreover from that(2) i have "int k \<noteq> i" by auto
    ultimately show ?thesis by (simp add: fmul_zero_one_hot)
  qed
  have hit: "?g ?m = f ?m"
    using i kept m by (simp add: fmul_one_kept)
  have split: "[0..<n] = [0..<?m] @ ?m # [Suc ?m..<n]"
    using m by (metis le0 upt_conv_Cons upt_add_eq_append le_add_diff_inverse less_imp_le_nat)
  have k0: "kept_by rnd (Finite 0)" by (simp add: kept_by_def)
  have a: "foldl (fadd rnd) (Finite 0) (map ?g [0..<?m]) = Finite 0"
    by (rule foldl_zeros_kept [OF k0]) (use m zero in auto)
  have b: "fadd rnd (Finite 0) (?g ?m) = f ?m"
    unfolding hit using kept m by (simp add: fadd_zero_left_kept)
  have c: "foldl (fadd rnd) (f ?m) (map ?g [Suc ?m..<n]) = f ?m"
    by (rule foldl_zeros_kept) (use kept m zero in auto)
  have "foldl (fadd rnd) (Finite 0) (map ?g [0..<n])
      = foldl (fadd rnd) (fadd rnd (foldl (fadd rnd) (Finite 0) (map ?g [0..<?m])) (?g ?m))
          (map ?g [Suc ?m..<n])"
    by (subst split) (simp only: map_append list.map foldl_append foldl_Cons)
  also have "\<dots> = f ?m"
    by (simp only: a b c)
  finally show ?thesis .
qed

lemma matmul_one_hot:
  assumes rows: "length table = V" and width: "\<forall>row\<in>set table. length row = w"
    and kept: "\<forall>row\<in>set table. \<forall>x\<in>set row. kept_by rnd x"
    and ids: "\<forall>i\<in>set ids. 0 \<le> i \<and> i < int V"
  shows "matmul rnd (one_hot ids V) table = Inr (map (\<lambda>i. table ! nat i) ids)"
proof -
  have ok: "\<forall>row\<in>set (one_hot ids V). length row = length table"
    by (auto simp: one_hot_def rows)
  have row: "map (\<lambda>j. foldl (fadd rnd) (Finite 0)
        (map (\<lambda>k. fmul rnd (map (\<lambda>k. if int k = i then Finite 1 else Finite 0) [0..<V] ! k)
                 (table ! k ! j)) [0..<V]))
        [0..<last_dim table] = table ! nat i" if i: "i \<in> set ids" for i
  proof -
    from ids i have r: "0 \<le> i" "i < int V" by auto
    then have "table \<noteq> []" using rows by auto
    then have ld: "last_dim table = w" using width by (cases table) (auto simp: last_dim_def)
    from r rows have mem: "table ! nat i \<in> set table" by simp
    with width have len: "length (table ! nat i) = w" by simp
    have "foldl (fadd rnd) (Finite 0)
        (map (\<lambda>k. fmul rnd (map (\<lambda>k. if int k = i then Finite 1 else Finite 0) [0..<V] ! k)
                 (table ! k ! j)) [0..<V]) = table ! nat i ! j" if j: "j < w" for j
    proof -
      have eq: "map (\<lambda>k. fmul rnd (map (\<lambda>k. if int k = i then Finite 1 else Finite 0) [0..<V] ! k)
                 (table ! k ! j)) [0..<V]
          = map (\<lambda>k. fmul rnd (if int k = i then Finite 1 else Finite 0) (table ! k ! j)) [0..<V]"
        by (rule map_cong) simp_all
      have "\<forall>k<V. kept_by rnd (table ! k ! j)"
      proof (intro allI impI)
        fix k assume k: "k < V"
        with rows have "table ! k \<in> set table" by simp
        with width kept j have "length (table ! k) = w" "\<forall>x\<in>set (table ! k). kept_by rnd x"
          by auto
        with j show "kept_by rnd (table ! k ! j)" by simp
      qed
      from one_hot_dot [OF r this] show ?thesis unfolding eq .
    qed
    then have "map (\<lambda>j. foldl (fadd rnd) (Finite 0)
        (map (\<lambda>k. fmul rnd (map (\<lambda>k. if int k = i then Finite 1 else Finite 0) [0..<V] ! k)
                 (table ! k ! j)) [0..<V]))
        [0..<last_dim table] = map (\<lambda>j. table ! nat i ! j) [0..<length (table ! nat i)]"
      unfolding ld len by simp
    then show ?thesis by (simp add: map_nth)
  qed
  show ?thesis
    using ok row by (simp add: matmul_def one_hot_def rows)
qed

text \<open>
  Claim C9, as amended. For a table of \<open>vocab_size\<close> rows of width \<open>embedding_width\<close> whose
  entries are all kept by the arithmetic (finite, and \<open>+0.0\<close> or returned unchanged by the
  rounding), and a tensor of ids whose entries all lie in \<open>0 .. vocab_size - 1\<close>, the call
  with \<open>use_one_hot = True\<close> (one-hot rows times the table) and the call with
  \<open>use_one_hot = False\<close> (gather of the table rows) return the same tensor: the rows of the
  table at the ids, in the shape of the ids followed by the width.
\<close>

theorem one_hot_equals_gather:
  assumes "length (embeddings layer) = vocab_size layer"
    and "\<forall>row\<in>set (embeddings layer). length row = embedding_width layer"
    and "\<forall>row\<in>set (embeddings layer). \<forall>x\<in>set row. kept_by rnd x"
    and "\<forall>i\<in>set (flat inputs). 0 \<le> i \<and> i < int (vocab_size layer)"
    and "length (flat inputs) = prod_list (shape inputs)"
  shows "OnDeviceEmbedding_call rnd (layer\<lparr>use_one_hot := True\<rparr>) inputs
      = OnDeviceEmbedding_call rnd (layer\<lparr>use_one_hot := False\<rparr>) inputs \<and>
    OnDeviceEmbedding_call rnd (layer\<lparr>use_one_hot := False\<rparr>) inputs
      = Inr \<lparr>shape = shape inputs @ [embedding_width layer],
             flat = concat (map (\<lambda>i. embeddings layer ! nat i) (flat inputs))\<rparr>"
proof -
  let ?rows = "map (\<lambda>i. embeddings layer ! nat i) (flat inputs)"
  have a: "matmul rnd (one_hot (flat inputs) (vocab_size layer)) (embeddings layer) = Inr ?rows"
    by (rule matmul_one_hot [OF assms(1) assms(2) assms(3) assms(4)])
  have b: "gather (embeddings layer) (flat inputs) = Inr ?rows"
    using assms(1,4) by (simp add: gather_def)
  have "\<forall>row\<in>set ?rows. length row = embedding_width layer"
    using assms(1,2,4) by auto
  from length_concat_uniform [OF this]
  have "length (concat ?rows) = length (flat inputs) * embedding_width layer"
    by simp
  then have c: "reshape_rows ?rows (shape inputs @ [embedding_width layer])
      = Inr \<lparr>shape = shape inputs @ [embedding_width layer], flat = concat ?rows\<rparr>"
    using assms(5) by (simp add: reshape_rows_def)
  show ?thesis
    by (simp add: OnDeviceEmbedding_call_def a b c)
qed

theorem one_hot_equals_gather_witness:
  "OnDeviceEmbedding_call flush_to_zero
     \<lparr>vocab_size = 2, embedding_width = 2, use_one_hot = True,
      embeddings = [[Finite 1, Finite (- 2)], [Finite 0, Finite (1 / 4)]]\<rparr>
     \<lparr>shape = [1, 2], flat = [1, 0]\<rparr> =
   OnDeviceEmbedding_call flush_to_zero
     \<lparr>vocab_size = 2, embedding_width = 2, use_one_hot = False,
      embeddings = [[Finite 1, Finite (- 2)], [Finite 0, Finite (1 / 4)]]\<rparr>
     \<lparr>shape = [1, 2], flat = [1, 0]\<rparr> \<and>
   OnDeviceEmbedding_call flush_to_zero
     \<lparr>vocab_size = 2, embedding_width = 2, use_one_hot = False,
      embeddings = [[Finite 1, Finite (- 2)], [Finite 0, Finite (1 / 4)]]\<rparr>
     \<lparr>shape = [1, 2], flat = [1, 0]\<rparr> =
   Inr \<lparr>shape = [1, 2, 2], flat = [Finite 0, Finite (1 / 4), Finite 1, Finite (- 2)]\<rparr>"
  using one_hot_equals_gather [of
      "\<lparr>vocab_size = 2, embedding_width = 2, use_one_hot = False,
        embeddings = [[Finite 1, Finite (- 2)], [Finite 0, Finite (1 / 4)]]\<rparr>"
      flush_to_zero "\<lparr>shape = [1, 2], flat = [1, 0]\<rparr>"]
  by (simp add: kept_by_def flush_to_zero_def)

text \<open>
  Claim C9 as stated, for every table, fails: with the table \<open>[[inf], [1.0]]\<close> and the id
  1, the one-hot row is \<open>[0.0, 1.0]\<close>, the product \<open>0.0 * inf\<close> is NaN, and so is the sum; the
  gather returns 1.0.
\<close>

theorem one_hot_differs_from_gather_counterexample:
  "OnDeviceEmbedding_call flush_to_zero
     \<lparr>vocab_size = 2, embedding_width = 1, use_one_hot = True,
      embeddings = [[PosInf], [Finite 1]]\<rparr>
     \<lparr>shape = [1], flat = [1]\<rparr> = Inr \<lparr>shape = [1, 1], flat = [NaN]\<rparr> \<and>
   OnDeviceEmbedding_call flush_to_zero
     \<lparr>vocab_size = 2, embedding_width = 1, use_one_hot = False,
      embeddings = [[PosInf], [Finite 1]]\<rparr>
     \<lparr>shape = [1], flat = [1]\<rparr> = Inr \<lparr>shape = [1, 1], flat = [Finite 1]\<rparr>"
  by (simp add: OnDeviceEmbedding_call_def one_hot_def matmul_def gather_def reshape_rows_def
      last_dim_def fmul_def fadd_def is_inf_def is_zero_def flush_to_zero_def upt_rec)

text \<open>
  So does it for a finite table where the kernel flushes subnormal numbers: the entry
  \<open>2 ^ -130\<close> comes back as \<open>+0.0\<close> from the one-hot product and unchanged from the gather.
\<close>

lemma one_hot_flushes_subnormal:
  "OnDeviceEmbedding_call flush_to_zero
     \<lparr>vocab_size = 1, embedding_width = 1, use_one_hot = True,
      embeddings = [[Finite (1 / 2 ^ 130)]]\<rparr>
     \<lparr>shape = [1], flat = [0]\<rparr> = Inr \<lparr>shape = [1, 1], flat = [Finite 0]\<rparr> \<and>
   OnDeviceEmbedding_call flush_to_zero
     \<lparr>vocab_size = 1, embedding_width = 1, use_one_hot = False,
      embeddings = [[Finite (1 / 2 ^ 130)]]\<rparr>
     \<lparr>shape = [1], flat = [0]\<rparr> = Inr \<lparr>shape = [1, 1], flat = [Finite (1 / 2 ^ 130)]\<rparr>"
  by (simp add: OnDeviceEmbedding_call_def one_hot_def matmul_def gather_def reshape_rows_def
      last_dim_def fmul_def fadd_def is_inf_def is_zero_def flush_to_zero_def upt_rec)

section \<open>Properties of the masked softmax\<close>













end
